theory Spec2Isabelle
  imports Main "HOL-Library.AList" "HOL-Library.Sublist"
begin

section \<open>Per-node synchronisation state\<close>

text \<open>
  The fields \<open>rcount, wcount, rwait, wwait, change, cwait\<close> of \<open>struct Tree\<close>. The C
  counters are \<open>int\<close>; each is bounded by the number of threads using the node, so
  they are modelled as unbounded integers. The mutex \<open>lock\<close> is not a field of the
  model: everything a protocol does between \<open>safe_lock\<close> and the next
  \<open>safe_wait\<close> or \<open>safe_unlock\<close> is one atomic step.
\<close>

record sync =
  rcount :: int
  wcount :: int
  rwait :: int
  wwait :: int
  change :: int
  cwait :: bool

text \<open>The three condition variables of a node, as targets of \<open>safe_signal\<close>.\<close>

datatype cond = Readers | Writers | Clear

text \<open>The values \<open>tree_new\<close> stores into a fresh node.\<close>

definition sync_new :: sync where
  "sync_new = \<lparr>rcount = 0, wcount = 0, rwait = 0, wwait = 0, change = 0, cwait = False\<rparr>"

subsection \<open>The four protocols, split at their wait points\<close>

text \<open>Guard of the \<open>while\<close> loop of \<open>reader_entry_protocol\<close>.\<close>

definition reader_must_wait :: "sync \<Rightarrow> bool" where
  "reader_must_wait s \<longleftrightarrow> (wcount s > 0 \<or> wwait s > 0) \<and> change s \<le> 0"

text \<open>The code of \<open>reader_entry_protocol\<close> after its loop, with the signal it sends.\<close>

definition reader_admit :: "sync \<Rightarrow> sync \<times> cond option" where
  "reader_admit s =
     (let s1 = s\<lparr>rcount := rcount s + 1\<rparr> in
      if change s1 > 0 then
        (let s2 = s1\<lparr>change := change s1 - 1\<rparr> in
         (s2, if change s2 > 0 then Some Readers else None))
      else (s1, None))"

text \<open>\<open>reader_exit_protocol\<close>: no wait point, one atomic step.\<close>

definition reader_exit_protocol :: "sync \<Rightarrow> sync \<times> cond option" where
  "reader_exit_protocol s =
     (let s1 = s\<lparr>rcount := rcount s - 1\<rparr> in
      if rcount s1 = 0 \<and> wwait s1 > 0 then (s1\<lparr>change := - 1\<rparr>, Some Writers)
      else if cwait s1 then (s1, Some Clear)
      else (s1, None))"

text \<open>Guard of the \<open>while\<close> loop of \<open>writer_entry_protocol\<close>, and the code after it.\<close>

definition writer_must_wait :: "sync \<Rightarrow> bool" where
  "writer_must_wait s \<longleftrightarrow> rcount s > 0 \<or> wcount s > 0 \<or> change s > 0"

definition writer_admit :: "sync \<Rightarrow> sync" where
  "writer_admit s = s\<lparr>wcount := wcount s + 1, change := 0\<rparr>"

text \<open>\<open>writer_exit_protocol\<close>: no wait point, one atomic step.\<close>

definition writer_exit_protocol :: "sync \<Rightarrow> sync \<times> cond option" where
  "writer_exit_protocol s =
     (let s1 = s\<lparr>wcount := wcount s - 1\<rparr> in
      if rwait s1 > 0 then (s1\<lparr>change := rwait s1\<rparr>, Some Readers)
      else if wwait s1 > 0 then (s1\<lparr>change := - 1\<rparr>, Some Writers)
      else if cwait s1 then (s1, Some Clear)
      else (s1, None))"

text \<open>
  Guard of the quiescence loops of \<open>tree_remove\<close> and \<open>bfs_clear\<close>, which take the
  node's mutex directly and wait on \<open>clear\<close>.
\<close>

definition clear_must_wait :: "sync \<Rightarrow> bool" where
  "clear_must_wait s \<longleftrightarrow> rcount s > 0 \<or> wcount s > 0 \<or> rwait s > 0 \<or> wwait s > 0"

subsection \<open>A node shared by several threads\<close>

text \<open>
  Where a thread stands with respect to one node: outside, blocked in one of the three
  \<open>safe_wait\<close> calls, or between an entry protocol and the matching exit protocol.
\<close>

datatype pc = Idle | RWaiting | WWaiting | CWaiting | Reading | Writing

text \<open>
  One pass of a thread through the loop head of an entry protocol: it either blocks
  (the counter of waiters incremented, the mutex released by \<open>safe_wait\<close>) or leaves
  the loop and finishes the protocol.
\<close>

definition reader_entry_pass :: "sync \<Rightarrow> sync \<times> pc" where
  "reader_entry_pass s =
     (if reader_must_wait s then (s\<lparr>rwait := rwait s + 1\<rparr>, RWaiting)
      else (fst (reader_admit s), Reading))"

definition writer_entry_pass :: "sync \<Rightarrow> sync \<times> pc" where
  "writer_entry_pass s =
     (if writer_must_wait s then (s\<lparr>wwait := wwait s + 1\<rparr>, WWaiting)
      else (writer_admit s, Writing))"

definition clear_pass :: "sync \<Rightarrow> sync \<times> pc" where
  "clear_pass s =
     (if clear_must_wait s then (s\<lparr>cwait := True\<rparr>, CWaiting)
      else (s, Idle))"

text \<open>
  The atomic steps of thread \<open>i\<close> on the node. A blocked thread may resume at any
  time (\<open>pthread_cond_wait\<close> allows spurious wake-ups); it then runs the statement
  after \<open>safe_wait\<close> and re-enters the loop head. An exit protocol is run only by a
  thread that completed the matching entry protocol, as every caller in the tree
  operations does.
\<close>

inductive step :: "sync \<times> pc list \<Rightarrow> sync \<times> pc list \<Rightarrow> bool" where
  reader_call: "i < length ts \<Longrightarrow> ts ! i = Idle \<Longrightarrow> reader_entry_pass s = (s', p)
      \<Longrightarrow> step (s, ts) (s', ts[i := p])"
| reader_wake: "i < length ts \<Longrightarrow> ts ! i = RWaiting
      \<Longrightarrow> reader_entry_pass (s\<lparr>rwait := rwait s - 1\<rparr>) = (s', p)
      \<Longrightarrow> step (s, ts) (s', ts[i := p])"
| reader_exit: "i < length ts \<Longrightarrow> ts ! i = Reading
      \<Longrightarrow> step (s, ts) (fst (reader_exit_protocol s), ts[i := Idle])"
| writer_call: "i < length ts \<Longrightarrow> ts ! i = Idle \<Longrightarrow> writer_entry_pass s = (s', p)
      \<Longrightarrow> step (s, ts) (s', ts[i := p])"
| writer_wake: "i < length ts \<Longrightarrow> ts ! i = WWaiting
      \<Longrightarrow> writer_entry_pass (s\<lparr>wwait := wwait s - 1\<rparr>) = (s', p)
      \<Longrightarrow> step (s, ts) (s', ts[i := p])"
| writer_exit: "i < length ts \<Longrightarrow> ts ! i = Writing
      \<Longrightarrow> step (s, ts) (fst (writer_exit_protocol s), ts[i := Idle])"
| clear_call: "i < length ts \<Longrightarrow> ts ! i = Idle \<Longrightarrow> clear_pass s = (s', p)
      \<Longrightarrow> step (s, ts) (s', ts[i := p])"
| clear_wake: "i < length ts \<Longrightarrow> ts ! i = CWaiting
      \<Longrightarrow> clear_pass (s\<lparr>cwait := False\<rparr>) = (s', p)
      \<Longrightarrow> step (s, ts) (s', ts[i := p])"

text \<open>States reachable from a fresh node with any number of threads outside it.\<close>

inductive reachable :: "sync \<times> pc list \<Rightarrow> bool" where
  reach_init: "reachable (sync_new, replicate n Idle)"
| reach_step: "reachable st \<Longrightarrow> step st st' \<Longrightarrow> reachable st'"

text \<open>The exclusion invariant, as the specification words it.\<close>

definition exclusion :: "sync \<Rightarrow> bool" where
  "exclusion s \<longleftrightarrow> (wcount s = 0 \<or> wcount s = 1) \<and> (wcount s = 1 \<longrightarrow> rcount s = 0)"

text \<open>Number of threads at a given place.\<close>

definition cnt :: "pc \<Rightarrow> pc list \<Rightarrow> int" where
  "cnt p ts = int (length (filter (\<lambda>q. q = p) ts))"

text \<open>
  The inductive strengthening: the counters count the threads inside, and no reader
  baton is pending while a writer is inside.
\<close>

definition monitor_inv :: "sync \<times> pc list \<Rightarrow> bool" where
  "monitor_inv st \<longleftrightarrow>
     rcount (fst st) = cnt Reading (snd st) \<and> wcount (fst st) = cnt Writing (snd st) \<and>
     wcount (fst st) \<le> 1 \<and> (wcount (fst st) = 1 \<longrightarrow> rcount (fst st) = 0 \<and> change (fst st) \<le> 0)"

section \<open>Return codes and sizes\<close>

text \<open>
  The operations return \<open>int\<close>: 0, the dedicated -1 of \<open>tree_move\<close>, or a code of
  \<open><errno.h>\<close>, here with its Linux value. Only their being positive and pairwise
  distinct is used.
\<close>

definition ENOENT :: int where "ENOENT = 2"
definition EBUSY :: int where "EBUSY = 16"
definition EEXIST :: int where "EEXIST = 17"
definition EINVAL :: int where "EINVAL = 22"
definition ENOTEMPTY :: int where "ENOTEMPTY = 39"

text \<open>
  \<open>size_t\<close> subtraction on a 64-bit target, for operands below \<open>2 ^ 64\<close>: a
  difference below zero wraps around.
\<close>

definition size_sub :: "nat \<Rightarrow> nat \<Rightarrow> nat" where
  "size_sub a b = (if b \<le> a then a - b else a + 2 ^ 64 - b)"

section \<open>Path utilities\<close>

text \<open>\<open>is_root\<close> of \<open>utils.c\<close>: \<open>strcmp(path, "/") == 0\<close>.\<close>

definition is_root :: "string \<Rightarrow> bool" where
  "is_root path \<longleftrightarrow> path = ''/''"

text \<open>
  Modelled from the spec: the permitted characters of a folder name, which the
  specification gives as the lowercase letters (\<open>path_utils.c\<close> is not among the
  sources).
\<close>

definition permitted :: "char \<Rightarrow> bool" where
  "permitted c \<longleftrightarrow> c \<in> set ''abcdefghijklmnopqrstuvwxyz''"

text \<open>
  Modelled from the spec: a folder name has 1 to \<open>MAX_FOLDER_NAME_LENGTH\<close> permitted
  characters. The value of the macro is not among the sources; it is the parameter
  \<open>mx\<close> here and in every operation that validates a path.
\<close>

definition is_name :: "nat \<Rightarrow> string \<Rightarrow> bool" where
  "is_name mx n \<longleftrightarrow> 1 \<le> length n \<and> length n \<le> mx \<and> list_all permitted n"

text \<open>The text between the slashes of a string: \<open>slash_fields ''/a/b/'' = ['''', ''a'', ''b'', '''']\<close>.\<close>

fun slash_fields :: "string \<Rightarrow> string list" where
  "slash_fields [] = [[]]"
| "slash_fields (c # cs) =
     (if c = CHR ''/'' then [] # slash_fields cs
      else (case slash_fields cs of [] \<Rightarrow> [[c]] | f # fs \<Rightarrow> (c # f) # fs))"

text \<open>The components of a path written \<open>/name1/.../nameK/\<close>.\<close>

definition path_components :: "string \<Rightarrow> string list" where
  "path_components path = butlast (tl (slash_fields path))"

text \<open>
  Modelled from the spec: \<open>is_path_valid\<close>. A valid path is \<open>/\<close> or \<open>/(name/)+\<close>: it
  starts and ends with a slash and every field between two slashes is a folder name.
\<close>

definition is_path_valid :: "nat \<Rightarrow> string \<Rightarrow> bool" where
  "is_path_valid mx path \<longleftrightarrow>
     2 \<le> length (slash_fields path) \<and> hd (slash_fields path) = [] \<and> last (slash_fields path) = [] \<and>
     list_all (is_name mx) (path_components path)"

text \<open>The path with the given components.\<close>

definition render :: "string list \<Rightarrow> string" where
  "render ns = CHR ''/'' # concat (map (\<lambda>n. n @ ''/'') ns)"

text \<open>
  Modelled from the spec: \<open>split_path\<close> consumes the first component after the leading
  slash and returns it with the remaining suffix, which still begins with a slash; it
  returns none when no second slash follows, as for \<open>/\<close>.
\<close>

definition split_path :: "string \<Rightarrow> (string \<times> string) option" where
  "split_path path =
     (case path of
        [] \<Rightarrow> None
      | c # r \<Rightarrow>
          (case dropWhile (\<lambda>x. x \<noteq> CHR ''/'') r of
             [] \<Rightarrow> None
           | s # subpath \<Rightarrow> Some (takeWhile (\<lambda>x. x \<noteq> CHR ''/'') r, s # subpath)))"

text \<open>
  Modelled from the spec: \<open>make_path_to_parent\<close> returns none for \<open>/\<close>, and for
  \<open>/a/b/c/\<close> the parent path \<open>/a/b/\<close> with the last component \<open>c\<close>.
\<close>

definition make_path_to_parent :: "string \<Rightarrow> (string \<times> string) option" where
  "make_path_to_parent path =
     (if path = ''/'' then None
      else (let body = rev (butlast path) in
            Some (rev (dropWhile (\<lambda>x. x \<noteq> CHR ''/'') body),
                  rev (takeWhile (\<lambda>x. x \<noteq> CHR ''/'') body))))"

text \<open>Modelled from the spec: \<open>count_slashes\<close>, the number of slash characters.\<close>

definition count_slashes :: "string \<Rightarrow> nat" where
  "count_slashes path = length (filter (\<lambda>x. x = CHR ''/'') path)"

text \<open>
  Modelled from the spec: \<open>common_files\<close>, the number of shared leading path
  components plus one.
\<close>

definition common_files :: "string \<Rightarrow> string \<Rightarrow> nat" where
  "common_files p q =
     length (longest_common_prefix (path_components p) (path_components q)) + 1"

text \<open>Names without a slash, and the inverse of \<open>slash_fields\<close>.\<close>

definition slashfree :: "string \<Rightarrow> bool" where
  "slashfree n \<longleftrightarrow> CHR ''/'' \<notin> set n"

fun unfields :: "string list \<Rightarrow> string" where
  "unfields [] = []"
| "unfields [f] = f"
| "unfields (f # fs) = f @ CHR ''/'' # unfields fs"

section \<open>The name-to-child map\<close>

text \<open>
  Modelled from the spec: the hash map of a node (\<open>HashMap.c\<close> is not among the
  sources) as a list of bindings, the first binding of a key being the one in force.
  \<open>hmap_insert\<close> is called by the tree operations only for a key that is absent.
\<close>

definition hmap_get :: "(string \<times> 'v) list \<Rightarrow> string \<Rightarrow> 'v option" where
  "hmap_get m k = map_of m k"

definition hmap_insert :: "(string \<times> 'v) list \<Rightarrow> string \<Rightarrow> 'v \<Rightarrow> (string \<times> 'v) list" where
  "hmap_insert m k v = AList.update k v m"

definition hmap_remove :: "(string \<times> 'v) list \<Rightarrow> string \<Rightarrow> (string \<times> 'v) list" where
  "hmap_remove m k = AList.delete k m"

definition hmap_size :: "(string \<times> 'v) list \<Rightarrow> nat" where
  "hmap_size m = length (remdups (map fst m))"

text \<open>
  Modelled from the spec: \<open>make_map_contents_string\<close>, the keys joined by commas in a
  deterministic order (here the order of the bindings), the empty string for an empty
  map.
\<close>

fun join_commas :: "string list \<Rightarrow> string" where
  "join_commas [] = []"
| "join_commas [k] = k"
| "join_commas (k # ks) = k @ CHR '','' # join_commas ks"

definition make_map_contents_string :: "(string \<times> 'v) list \<Rightarrow> string" where
  "make_map_contents_string m = join_commas (remdups (map fst m))"

text \<open>The names a listing shows: the text between its commas.\<close>

fun listed :: "string \<Rightarrow> string list" where
  "listed [] = []"
| "listed (c # cs) =
     (if c = CHR '','' then [] # (case listed cs of [] \<Rightarrow> [[]] | fs \<Rightarrow> fs)
      else (case listed cs of [] \<Rightarrow> [[c]] | f # fs \<Rightarrow> (c # f) # fs))"

section \<open>The tree and its store\<close>

text \<open>
  \<open>struct Tree\<close>: the map of children and the synchronisation fields. A node owns its
  children, so the whole tree is a value; a \<open>Tree *\<close> is modelled as the list of names
  that leads from the root to the node (the root is \<open>[]\<close>), which identifies a node
  because the structure is a tree, and two pointers are equal exactly when these
  lists are.
\<close>

datatype tree = Tree (tmap: "(string \<times> tree) list") (tsync: sync)

type_synonym ptr = "string list"

text \<open>\<open>tree_new\<close>: an empty map and the initial counters.\<close>

definition tree_new :: tree where
  "tree_new = Tree [] sync_new"

text \<open>Dereferencing a pointer, and updating the node it points to.\<close>

fun get_node :: "tree \<Rightarrow> ptr \<Rightarrow> tree option" where
  "get_node t [] = Some t"
| "get_node t (c # a) =
     (case map_of (tmap t) c of None \<Rightarrow> None | Some ch \<Rightarrow> get_node ch a)"

fun upd_node :: "(tree \<Rightarrow> tree) \<Rightarrow> ptr \<Rightarrow> tree \<Rightarrow> tree" where
  "upd_node f [] t = f t"
| "upd_node f (c # a) t = Tree (AList.map_entry c (upd_node f a) (tmap t)) (tsync t)"

definition map_tsync :: "(sync \<Rightarrow> sync) \<Rightarrow> tree \<Rightarrow> tree" where
  "map_tsync f n = Tree (tmap n) (f (tsync n))"

definition map_tmap :: "((string \<times> tree) list \<Rightarrow> (string \<times> tree) list) \<Rightarrow> tree \<Rightarrow> tree" where
  "map_tmap f n = Tree (f (tmap n)) (tsync n)"

text \<open>
  The calls of the four protocols are recorded, with the node they are made on, in the
  order a thread makes them.
\<close>

datatype event = Reader_entry ptr | Reader_exit ptr | Writer_entry ptr | Writer_exit ptr

text \<open>The store an operation works on: the tree below the root, and the calls so far.\<close>

type_synonym state = "tree \<times> event list"

subsection \<open>The protocols, called by one thread while the others stand still\<close>

text \<open>
  An operation is run by one thread, from a state of the tree in which other threads
  may be inside nodes or waiting at them, as the counters record; they make no step
  while the operation runs. A call that has to wait then never returns from
  \<open>safe_wait\<close>: nobody signals, and a spurious wake-up finds the loop guard unchanged.
  That outcome is \<open>None\<close>, as is the use of a pointer to no node. The signals are
  dropped: nobody receives them while the operation runs.
\<close>

definition reader_entry_on :: "ptr \<Rightarrow> state \<Rightarrow> state option" where
  "reader_entry_on a st =
     (case get_node (fst st) a of
        None \<Rightarrow> None
      | Some n \<Rightarrow>
          if reader_must_wait (tsync n) then None
          else Some (upd_node (map_tsync (\<lambda>s. fst (reader_admit s))) a (fst st),
                     snd st @ [Reader_entry a]))"

definition reader_exit_on :: "ptr \<Rightarrow> state \<Rightarrow> state option" where
  "reader_exit_on a st =
     (case get_node (fst st) a of
        None \<Rightarrow> None
      | Some n \<Rightarrow>
          Some (upd_node (map_tsync (\<lambda>s. fst (reader_exit_protocol s))) a (fst st),
                snd st @ [Reader_exit a]))"

definition writer_entry_on :: "ptr \<Rightarrow> state \<Rightarrow> state option" where
  "writer_entry_on a st =
     (case get_node (fst st) a of
        None \<Rightarrow> None
      | Some n \<Rightarrow>
          if writer_must_wait (tsync n) then None
          else Some (upd_node (map_tsync writer_admit) a (fst st),
                     snd st @ [Writer_entry a]))"

definition writer_exit_on :: "ptr \<Rightarrow> state \<Rightarrow> state option" where
  "writer_exit_on a st =
     (case get_node (fst st) a of
        None \<Rightarrow> None
      | Some n \<Rightarrow>
          Some (upd_node (map_tsync (\<lambda>s. fst (writer_exit_protocol s))) a (fst st),
                snd st @ [Writer_exit a]))"

text \<open>
  The branch \<open>if (to_grandparent == 0) writer_entry_protocol else reader_entry_protocol\<close>
  that every descent has.
\<close>

definition entry_on :: "nat \<Rightarrow> ptr \<Rightarrow> state \<Rightarrow> state option" where
  "entry_on k a st = (if k = 0 then writer_entry_on a st else reader_entry_on a st)"

text \<open>\<open>tree->map\<close> read through a pointer.\<close>

definition map_at :: "state \<Rightarrow> ptr \<Rightarrow> (string \<times> tree) list option" where
  "map_at st a = map_option tmap (get_node (fst st) a)"

subsection \<open>\<open>tree_list\<close>\<close>

text \<open>Each descent loop ends because \<open>split_path\<close> returns a shorter path.\<close>

lemma split_path_shorter: "split_path path = Some (component, subpath) \<Longrightarrow> length subpath < length path"
proof -
  assume a: "split_path path = Some (component, subpath)"
  then obtain c r where p: "path = c # r" by (cases path) (simp_all add: split_path_def)
  with a have "subpath = dropWhile (\<lambda>x. x \<noteq> CHR ''/'') r"
    by (simp add: split_path_def split: list.splits)
  then have "length subpath \<le> length r" by (simp add: length_dropWhile_le)
  with p show ?thesis by simp
qed

text \<open>
  The loop of \<open>tree_list\<close>: \<open>tree\<close> is held as a reader; the result is the listing, or
  none when a component is missing.
\<close>

function list_loop :: "ptr \<Rightarrow> string \<Rightarrow> state \<Rightarrow> (state \<times> string option) option" where
  "list_loop tree path st =
     (case split_path path of
        Some (component, subpath) \<Rightarrow>
          (case map_at st tree of
             None \<Rightarrow> None
           | Some m \<Rightarrow>
               (case hmap_get m component of
                  None \<Rightarrow>
                    (case reader_exit_on tree st of
                       None \<Rightarrow> None
                     | Some st1 \<Rightarrow> Some (st1, None))
                | Some _ \<Rightarrow>
                    (case reader_entry_on (tree @ [component]) st of
                       None \<Rightarrow> None
                     | Some st1 \<Rightarrow>
                         (case reader_exit_on tree st1 of
                            None \<Rightarrow> None
                          | Some st2 \<Rightarrow> list_loop (tree @ [component]) subpath st2))))
      | None \<Rightarrow>
          (case map_at st tree of
             None \<Rightarrow> None
           | Some m \<Rightarrow>
               (case reader_exit_on tree st of
                  None \<Rightarrow> None
                | Some st1 \<Rightarrow> Some (st1, Some (make_map_contents_string m)))))"
  by pat_completeness auto
termination
  by (relation "measure (\<lambda>(tree, path, st). length path)") (auto dest: split_path_shorter)

declare list_loop.simps [simp del]

definition tree_list :: "nat \<Rightarrow> state \<Rightarrow> string \<Rightarrow> (state \<times> string option) option" where
  "tree_list mx st path =
     (if \<not> is_path_valid mx path then Some (st, None)
      else (case reader_entry_on [] st of
              None \<Rightarrow> None
            | Some st1 \<Rightarrow> list_loop [] path st1))"

subsection \<open>\<open>find_node\<close>, \<open>tree_create\<close>, \<open>tree_remove\<close>\<close>

text \<open>
  The loop of \<open>find_node\<close>. The result is the error code, or the value left in \<open>*tree\<close>
  when the code is 0. \<open>to_grandparent--\<close> is a \<open>size_t\<close> decrement.
\<close>

function find_node_loop :: "ptr \<Rightarrow> string \<Rightarrow> nat \<Rightarrow> state \<Rightarrow> (state \<times> (int + ptr)) option" where
  "find_node_loop tree path to_grandparent st =
     (case split_path path of
        None \<Rightarrow> Some (st, Inr tree)
      | Some (component, subpath) \<Rightarrow>
          (case map_at st tree of
             None \<Rightarrow> None
           | Some m \<Rightarrow>
               (case hmap_get m component of
                  None \<Rightarrow>
                    (case reader_exit_on tree st of
                       None \<Rightarrow> None
                     | Some st1 \<Rightarrow> Some (st1, Inl ENOENT))
                | Some _ \<Rightarrow>
                    (case entry_on (size_sub to_grandparent 1) (tree @ [component]) st of
                       None \<Rightarrow> None
                     | Some st1 \<Rightarrow>
                         (case reader_exit_on tree st1 of
                            None \<Rightarrow> None
                          | Some st2 \<Rightarrow>
                              find_node_loop (tree @ [component]) subpath
                                (size_sub to_grandparent 1) st2)))))"
  by pat_completeness auto
termination
  by (relation "measure (\<lambda>(tree, path, k, st). length path)") (auto dest: split_path_shorter)

declare find_node_loop.simps [simp del]

definition find_node :: "ptr \<Rightarrow> string \<Rightarrow> nat \<Rightarrow> state \<Rightarrow> (state \<times> (int + ptr)) option" where
  "find_node tree path to_grandparent st =
     (case entry_on to_grandparent tree st of
        None \<Rightarrow> None
      | Some st1 \<Rightarrow> find_node_loop tree path to_grandparent st1)"

text \<open>\<open>hmap_insert\<close> and \<open>hmap_remove\<close> on \<open>tree->map\<close>.\<close>

definition insert_at :: "ptr \<Rightarrow> string \<Rightarrow> tree \<Rightarrow> state \<Rightarrow> state" where
  "insert_at a k v st = (upd_node (map_tmap (\<lambda>m. hmap_insert m k v)) a (fst st), snd st)"

definition remove_at :: "ptr \<Rightarrow> string \<Rightarrow> state \<Rightarrow> state" where
  "remove_at a k st = (upd_node (map_tmap (\<lambda>m. hmap_remove m k)) a (fst st), snd st)"

definition tree_create :: "nat \<Rightarrow> state \<Rightarrow> string \<Rightarrow> (state \<times> int) option" where
  "tree_create mx st path =
     (if \<not> is_path_valid mx path then Some (st, EINVAL)
      else if is_root path then Some (st, EEXIST)
      else
        (case make_path_to_parent path of
           None \<Rightarrow> None
         | Some (parent_path, child_name) \<Rightarrow>
             (case find_node [] parent_path (size_sub (count_slashes parent_path) 1) st of
                None \<Rightarrow> None
              | Some (st1, Inl err) \<Rightarrow> Some (st1, err)
              | Some (st1, Inr tree) \<Rightarrow>
                  (case map_at st1 tree of
                     None \<Rightarrow> None
                   | Some m \<Rightarrow>
                       (let (st2, err) =
                              (case hmap_get m child_name of
                                 Some _ \<Rightarrow> (st1, EEXIST)
                               | None \<Rightarrow> (insert_at tree child_name tree_new st1, 0))
                        in (case writer_exit_on tree st2 of
                              None \<Rightarrow> None
                            | Some st3 \<Rightarrow> Some (st3, err)))))))"

text \<open>
  \<open>tree_remove\<close>. The loop on the child waits on \<open>clear\<close> while the child is in use;
  \<open>tree_free\<close> of the child is the disappearance of its binding.
\<close>

definition tree_remove :: "nat \<Rightarrow> state \<Rightarrow> string \<Rightarrow> (state \<times> int) option" where
  "tree_remove mx st path =
     (if \<not> is_path_valid mx path then Some (st, EINVAL)
      else if is_root path then Some (st, EBUSY)
      else
        (case make_path_to_parent path of
           None \<Rightarrow> None
         | Some (parent_path, child_name) \<Rightarrow>
             (case find_node [] parent_path (size_sub (count_slashes parent_path) 1) st of
                None \<Rightarrow> None
              | Some (st1, Inl err) \<Rightarrow> Some (st1, err)
              | Some (st1, Inr tree) \<Rightarrow>
                  (case map_at st1 tree of
                     None \<Rightarrow> None
                   | Some m \<Rightarrow>
                       (case hmap_get m child_name of
                          None \<Rightarrow>
                            (case writer_exit_on tree st1 of
                               None \<Rightarrow> None
                             | Some st3 \<Rightarrow> Some (st3, ENOENT))
                        | Some son \<Rightarrow>
                            if clear_must_wait (tsync son) then None
                            else
                              (let (st2, err) =
                                     (if hmap_size (tmap son) \<noteq> 0 then (st1, ENOTEMPTY)
                                      else (remove_at tree child_name st1, 0))
                               in (case writer_exit_on tree st2 of
                                     None \<Rightarrow> None
                                   | Some st3 \<Rightarrow> Some (st3, err))))))))"

subsection \<open>\<open>tree_move\<close>\<close>

text \<open>
  \<open>bfs_clear\<close> returns once no node of the subtree is in use; it changes no field
  unless it has to wait.
\<close>

fun bfs_clear :: "tree \<Rightarrow> bool" where
  "bfs_clear (Tree m s) \<longleftrightarrow> \<not> clear_must_wait s \<and> (\<forall>x \<in> set m. bfs_clear (snd x))"

definition bfs_clear_on :: "ptr \<Rightarrow> state \<Rightarrow> state option" where
  "bfs_clear_on a st =
     (case get_node (fst st) a of
        None \<Rightarrow> None
      | Some n \<Rightarrow> if bfs_clear n then Some st else None)"

text \<open>
  \<open>move_dfs\<close>: the descent from the lowest common ancestor, which stays held as a
  writer while \<open>in_lca\<close> is true.
\<close>

function move_dfs :: "ptr \<Rightarrow> string \<Rightarrow> nat \<Rightarrow> bool \<Rightarrow> state \<Rightarrow> (state \<times> (int + ptr)) option" where
  "move_dfs tree path to_grandparent in_lca st =
     (case split_path path of
        None \<Rightarrow> Some (st, Inr tree)
      | Some (component, subpath) \<Rightarrow>
          (case map_at st tree of
             None \<Rightarrow> None
           | Some m \<Rightarrow>
               (case hmap_get m component of
                  None \<Rightarrow>
                    (if \<not> in_lca then
                       (case reader_exit_on tree st of
                          None \<Rightarrow> None
                        | Some st1 \<Rightarrow> Some (st1, Inl ENOENT))
                     else Some (st, Inl ENOENT))
                | Some _ \<Rightarrow>
                    (case entry_on (size_sub to_grandparent 1) (tree @ [component]) st of
                       None \<Rightarrow> None
                     | Some st1 \<Rightarrow>
                         (if in_lca then
                            move_dfs (tree @ [component]) subpath
                              (size_sub to_grandparent 1) False st1
                          else
                            (case reader_exit_on tree st1 of
                               None \<Rightarrow> None
                             | Some st2 \<Rightarrow>
                                 move_dfs (tree @ [component]) subpath
                                   (size_sub to_grandparent 1) False st2))))))"
  by pat_completeness auto
termination
  by (relation "measure (\<lambda>(tree, path, k, l, st). length path)") (auto dest: split_path_shorter)

declare move_dfs.simps [simp del]

text \<open>A protocol call that is made only under a condition.\<close>

definition when_on :: "bool \<Rightarrow> (state \<Rightarrow> state option) \<Rightarrow> state \<Rightarrow> state option" where
  "when_on b f st = (if b then f st else Some st)"

definition source_dfs ::
    "ptr \<Rightarrow> ptr \<Rightarrow> string \<Rightarrow> string \<Rightarrow> string \<Rightarrow> nat \<Rightarrow> state \<Rightarrow> (state \<times> int) option" where
  "source_dfs lca_tree target_tree source source_child target_child to_grandparent st =
     (case move_dfs lca_tree source to_grandparent True st of
        None \<Rightarrow> None
      | Some (st1, Inl err) \<Rightarrow>
          (case when_on (lca_tree \<noteq> target_tree) (writer_exit_on target_tree) st1 of
             None \<Rightarrow> None
           | Some st2 \<Rightarrow>
               (case writer_exit_on lca_tree st2 of
                  None \<Rightarrow> None
                | Some st3 \<Rightarrow> Some (st3, err)))
      | Some (st1, Inr source_tree) \<Rightarrow>
          (case map_at st1 source_tree of
             None \<Rightarrow> None
           | Some m \<Rightarrow>
               (case hmap_get m source_child of
                  None \<Rightarrow>
                    (case when_on (source_tree \<noteq> lca_tree) (writer_exit_on source_tree) st1 of
                       None \<Rightarrow> None
                     | Some st2 \<Rightarrow>
                         (case when_on (target_tree \<noteq> lca_tree) (writer_exit_on target_tree) st2 of
                            None \<Rightarrow> None
                          | Some st3 \<Rightarrow>
                              (case writer_exit_on lca_tree st3 of
                                 None \<Rightarrow> None
                               | Some st4 \<Rightarrow> Some (st4, ENOENT))))
                | Some _ \<Rightarrow>
                    (case when_on (lca_tree \<noteq> source_tree \<and> lca_tree \<noteq> target_tree)
                            (writer_exit_on lca_tree) st1 of
                       None \<Rightarrow> None
                     | Some st2 \<Rightarrow>
                         (case bfs_clear_on (source_tree @ [source_child]) st2 of
                            None \<Rightarrow> None
                          | Some st3 \<Rightarrow>
                              (case get_node (fst st3) (source_tree @ [source_child]) of
                                 None \<Rightarrow> None
                               | Some to_be_moved \<Rightarrow>
                                   (let st4 = remove_at source_tree source_child st3;
                                        st5 = insert_at target_tree target_child to_be_moved st4
                                    in (case when_on (source_tree \<noteq> target_tree)
                                               (writer_exit_on source_tree) st5 of
                                          None \<Rightarrow> None
                                        | Some st6 \<Rightarrow>
                                            (case writer_exit_on target_tree st6 of
                                               None \<Rightarrow> None
                                             | Some st7 \<Rightarrow> Some (st7, 0))))))))))"

definition target_dfs ::
    "ptr \<Rightarrow> string \<Rightarrow> string \<Rightarrow> string \<Rightarrow> string \<Rightarrow> nat \<Rightarrow> nat \<Rightarrow> state \<Rightarrow> (state \<times> int) option" where
  "target_dfs lca_tree target target_child source source_child to_grandparent
       to_grandparent_source st =
     (case move_dfs lca_tree target to_grandparent True st of
        None \<Rightarrow> None
      | Some (st1, Inl err) \<Rightarrow>
          (case writer_exit_on lca_tree st1 of
             None \<Rightarrow> None
           | Some st2 \<Rightarrow> Some (st2, err))
      | Some (st1, Inr target_tree) \<Rightarrow>
          (case map_at st1 target_tree of
             None \<Rightarrow> None
           | Some m \<Rightarrow>
               (case hmap_get m target_child of
                  Some _ \<Rightarrow>
                    (case when_on (target_tree \<noteq> lca_tree) (writer_exit_on target_tree) st1 of
                       None \<Rightarrow> None
                     | Some st2 \<Rightarrow>
                         (case writer_exit_on lca_tree st2 of
                            None \<Rightarrow> None
                          | Some st3 \<Rightarrow> Some (st3, EEXIST)))
                | None \<Rightarrow>
                    source_dfs lca_tree target_tree source source_child target_child
                      to_grandparent_source st1)))"

text \<open>
  The \<open>while (common > 0)\<close> loop of \<open>tree_move\<close>, which descends the shared prefix of
  the two parent paths. Both paths are split; \<open>component\<close> is left holding the
  component of \<open>target\<close>. The loop is never run with a path that has no component left
  (\<open>common\<close> counts shared components), so that outcome is \<open>None\<close>. The result is the
  error code, or the node reached with what is left of the two paths.
\<close>

function move_lca_loop ::
    "ptr \<Rightarrow> string \<Rightarrow> string \<Rightarrow> nat \<Rightarrow> state \<Rightarrow> (state \<times> (int + ptr \<times> string \<times> string)) option" where
  "move_lca_loop tree source target common st =
     (if common > 0 then
        (case split_path source of
           None \<Rightarrow> None
         | Some (source_component, source1) \<Rightarrow>
             (case split_path target of
                None \<Rightarrow> None
              | Some (component, target1) \<Rightarrow>
                  (case map_at st tree of
                     None \<Rightarrow> None
                   | Some m \<Rightarrow>
                       (case hmap_get m component of
                          None \<Rightarrow>
                            (case reader_exit_on tree st of
                               None \<Rightarrow> None
                             | Some st1 \<Rightarrow> Some (st1, Inl ENOENT))
                        | Some _ \<Rightarrow>
                            (case entry_on (common - 1) (tree @ [component]) st of
                               None \<Rightarrow> None
                             | Some st1 \<Rightarrow>
                                 (case reader_exit_on tree st1 of
                                    None \<Rightarrow> None
                                  | Some st2 \<Rightarrow>
                                      move_lca_loop (tree @ [component]) source1 target1
                                        (common - 1) st2))))))
      else Some (st, Inr (tree, source, target)))"
  by pat_completeness auto
termination
  by (relation "measure (\<lambda>(tree, source, target, common, st). common)") auto

declare move_lca_loop.simps [simp del]

definition tree_move :: "nat \<Rightarrow> state \<Rightarrow> string \<Rightarrow> string \<Rightarrow> (state \<times> int) option" where
  "tree_move mx st source target =
     (if \<not> is_path_valid mx source \<or> \<not> is_path_valid mx target then Some (st, EINVAL)
      else if is_root source then Some (st, EBUSY)
      else if is_root target then Some (st, EEXIST)
      else if length source < length target \<and>
              take (length source) source = take (length source) target then Some (st, - 1)
      else
        (case make_path_to_parent source of
           None \<Rightarrow> None
         | Some (source_parent_path, source_child_name) \<Rightarrow>
             (case make_path_to_parent target of
                None \<Rightarrow> None
              | Some (target_parent_path, target_child_name) \<Rightarrow>
                  (let common = size_sub (common_files source_parent_path target_parent_path) 1;
                       source_size =
                         size_sub (size_sub (count_slashes source_parent_path) 1) common;
                       target_size =
                         size_sub (size_sub (count_slashes target_parent_path) 1) common
                   in (case entry_on common [] st of
                         None \<Rightarrow> None
                       | Some st1 \<Rightarrow>
                           (case move_lca_loop [] source_parent_path target_parent_path
                                   common st1 of
                              None \<Rightarrow> None
                            | Some (st2, Inl err) \<Rightarrow> Some (st2, err)
                            | Some (st2, Inr (lca, source1, target1)) \<Rightarrow>
                                target_dfs lca target1 target_child_name source1
                                  source_child_name target_size source_size st2))))))"

text \<open>The tree of a state in which no thread is inside or waiting at any node.\<close>

fun idle :: "tree \<Rightarrow> bool" where
  "idle (Tree m s) \<longleftrightarrow> s = sync_new \<and> (\<forall>x \<in> set m. idle (snd x))"

text \<open>
  The counters of a node that one thread holds as a reader, and as a writer, when
  nobody else is at the node.
\<close>

definition sR :: sync where
  "sR = sync_new\<lparr>rcount := 1\<rparr>"

definition sW :: sync where
  "sW = sync_new\<lparr>wcount := 1\<rparr>"

text \<open>The tree with the counters of one node replaced.\<close>

definition set_sync :: "sync \<Rightarrow> ptr \<Rightarrow> tree \<Rightarrow> tree" where
  "set_sync s a t = upd_node (map_tsync (\<lambda>_. s)) a t"

text \<open>
  The calls a hand-over-hand descent makes from a node \<open>a\<close> that is held as a reader,
  along the names \<open>cs\<close> with the step budget \<open>k\<close>: the child is entered, as a writer
  when the budget reaches zero, before the parent is left.
\<close>

fun descent :: "nat \<Rightarrow> ptr \<Rightarrow> string list \<Rightarrow> event list" where
  "descent k a [] = []"
| "descent k a (c # cs) =
     (if k - 1 = 0 then Writer_entry (a @ [c]) else Reader_entry (a @ [c])) #
     Reader_exit a # descent (k - 1) (a @ [c]) cs"

text \<open>A tree in which every key is a folder name, as the operations build it.\<close>

fun named :: "nat \<Rightarrow> tree \<Rightarrow> bool" where
  "named mx (Tree m s) \<longleftrightarrow> (\<forall>x \<in> set m. is_name mx (fst x) \<and> named mx (snd x))"

text \<open>A tree with the folders \<open>/a/\<close> and \<open>/a/b/\<close>, for the examples.\<close>

definition tree_a_b :: tree where
  "tree_a_b = Tree [(''a'', Tree [(''b'', tree_new)] sync_new)] sync_new"

text \<open>
  The same tree with a folder \<open>/z/\<close> that another thread is reading; and the tree with
  the folders \<open>/a/\<close> and \<open>/a/b/\<close> while another thread holds its root as a writer.
\<close>

definition tree_a_b_z :: tree where
  "tree_a_b_z =
     Tree [(''a'', Tree [(''b'', tree_new)] sync_new), (''z'', Tree [] sR)] sync_new"

definition tree_a_b_held :: tree where
  "tree_a_b_held = Tree [(''a'', Tree [(''b'', tree_new)] sync_new)] sW"

text \<open>
  A change of a node that leaves the binding of the child \<open>c\<close> alone and commutes
  with every change of the subtree bound to \<open>c\<close>; and a change applied at \<open>a\<close> that
  does so for the child of \<open>a\<close> on the way to \<open>b\<close>, when \<open>b\<close> lies below \<open>a\<close>.
\<close>

definition keeps :: "string \<Rightarrow> (tree \<Rightarrow> tree) \<Rightarrow> bool" where
  "keeps c F \<longleftrightarrow>
     (\<forall>g n. F (map_tmap (AList.map_entry c g) n) = map_tmap (AList.map_entry c g) (F n)) \<and>
     (\<forall>n. map_of (tmap (F n)) c = map_of (tmap n) c)"

definition keeps_below :: "ptr \<Rightarrow> ptr \<Rightarrow> (tree \<Rightarrow> tree) \<Rightarrow> bool" where
  "keeps_below a b F \<longleftrightarrow> (\<forall>c q. b = a @ c # q \<longrightarrow> keeps c F)"

text \<open>
  What \<open>tree_move\<close> is to do with the source parent \<open>S\<close>, the target parent \<open>T\<close> and
  the two last components, once its arguments have passed the initial checks: the
  resulting tree and the code returned.
\<close>

definition move_outcome :: "tree \<Rightarrow> ptr \<Rightarrow> string \<Rightarrow> ptr \<Rightarrow> string \<Rightarrow> tree \<times> int" where
  "move_outcome t S sn T tn =
     (if get_node t T = None then (t, ENOENT)
      else if get_node t (T @ [tn]) \<noteq> None then (t, EEXIST)
      else
        (case get_node t (S @ [sn]) of
           None \<Rightarrow> (t, ENOENT)
         | Some sub \<Rightarrow>
             (upd_node (map_tmap (\<lambda>m. hmap_insert m tn sub)) T
                (upd_node (map_tmap (\<lambda>m. hmap_remove m sn)) S t), 0)))"

text \<open>The calls of the writer protocols, among the calls of a trace.\<close>

fun writer_event :: "event \<Rightarrow> bool" where
  "writer_event (Writer_entry a) = True"
| "writer_event (Writer_exit a) = True"
| "writer_event (Reader_entry a) = False"
| "writer_event (Reader_exit a) = False"

text \<open>
  The folders of a tree without the counters of its nodes: what the maps hold, whoever
  is at the nodes.
\<close>

fun contents :: "tree \<Rightarrow> tree" where
  "contents (Tree m s) = Tree (map (\<lambda>x. (fst x, contents (snd x))) m) sync_new"

text \<open>
  Two trees that differ at most in the counters of nodes on the way to one of the nodes
  of \<open>A\<close>.
\<close>

definition resync :: "ptr set \<Rightarrow> tree \<Rightarrow> tree \<Rightarrow> bool" where
  "resync A t t' \<longleftrightarrow>
     contents t' = contents t \<and>
     (\<forall>b. (\<forall>p \<in> A. \<not> prefix b p) \<longrightarrow> get_node t' b = get_node t b)"

section \<open>Properties of the synchronisation state\<close>

lemma filter_update_length:
  "i < length ts \<Longrightarrow>
   length (filter P (ts[i := q])) + (if P (ts ! i) then 1 else 0) =
     length (filter P ts) + (if P q then 1 else 0)"
proof (induction ts arbitrary: i)
  case Nil
  then show ?case by simp
next
  case (Cons t ts)
  show ?case
  proof (cases i)
    case 0
    then show ?thesis by simp
  next
    case (Suc j)
    with Cons.prems have "j < length ts" by simp
    from Cons.IH [OF this] Suc show ?thesis by simp
  qed
qed

lemma cnt_update:
  assumes "i < length ts"
  shows "cnt p (ts[i := q]) = cnt p ts - (if ts ! i = p then 1 else 0) + (if q = p then 1 else 0)"
proof -
  have e: "length (filter (\<lambda>q. q = p) (ts[i := q])) + (if ts ! i = p then 1 else 0) =
      length (filter (\<lambda>q. q = p) ts) + (if q = p then 1 else 0)"
    using filter_update_length [OF assms, of "\<lambda>q. q = p" q] .
  show ?thesis
  proof (cases "ts ! i = p")
    case True
    with e show ?thesis unfolding cnt_def by (cases "q = p") simp_all
  next
    case False
    with e show ?thesis unfolding cnt_def by (cases "q = p") simp_all
  qed
qed

lemma cnt_nonneg: "0 \<le> cnt p ts"
  by (simp add: cnt_def)

lemma cnt_pos:
  assumes "i < length ts" and "ts ! i = p"
  shows "0 < cnt p ts"
proof -
  from assms have "p \<in> set ts" by (metis nth_mem)
  then have "filter (\<lambda>q. q = p) ts \<noteq> []" by (simp add: filter_empty_conv)
  then show ?thesis by (simp add: cnt_def)
qed

lemma monitor_inv_init: "monitor_inv (sync_new, replicate n Idle)"
  by (simp add: monitor_inv_def sync_new_def cnt_def)


lemma reader_entry_pass_cases:
  assumes "reader_entry_pass s = (s', p)"
  shows "(p = RWaiting \<and> rcount s' = rcount s \<and> wcount s' = wcount s \<and> change s' = change s) \<or>
         (p = Reading \<and> \<not> reader_must_wait s \<and> rcount s' = rcount s + 1 \<and> wcount s' = wcount s
            \<and> (change s' = change s \<or> change s' = change s - 1))"
  using assms by (simp add: reader_entry_pass_def reader_admit_def Let_def split: if_splits) auto

lemma writer_entry_pass_cases:
  assumes "writer_entry_pass s = (s', p)"
  shows "(p = WWaiting \<and> rcount s' = rcount s \<and> wcount s' = wcount s \<and> change s' = change s) \<or>
         (p = Writing \<and> \<not> writer_must_wait s \<and> rcount s' = rcount s \<and> wcount s' = wcount s + 1
            \<and> change s' = 0)"
  using assms by (simp add: writer_entry_pass_def writer_admit_def split: if_splits) auto

lemma clear_pass_cases:
  assumes "clear_pass s = (s', p)"
  shows "(p = CWaiting \<or> p = Idle) \<and> rcount s' = rcount s \<and> wcount s' = wcount s \<and> change s' = change s"
  using assms by (simp add: clear_pass_def split: if_splits) auto

lemma reader_exit_fields:
  "rcount (fst (reader_exit_protocol s)) = rcount s - 1 \<and>
   wcount (fst (reader_exit_protocol s)) = wcount s"
  by (simp add: reader_exit_protocol_def Let_def)

lemma writer_exit_fields:
  "rcount (fst (writer_exit_protocol s)) = rcount s \<and>
   wcount (fst (writer_exit_protocol s)) = wcount s - 1"
  by (simp add: writer_exit_protocol_def Let_def)

lemma monitor_inv_step:
  assumes inv: "monitor_inv st" and st: "step st st'"
  shows "monitor_inv st'"
  using st
proof (cases rule: step.cases)
  case (reader_call i ts s s' p)
  from reader_entry_pass_cases [OF reader_call(5)] inv reader_call(1-4) show ?thesis
    by (auto simp: monitor_inv_def cnt_update reader_must_wait_def)
next
  case (reader_wake i ts s s' p)
  from reader_entry_pass_cases [OF reader_wake(5)] inv reader_wake(1-4) show ?thesis
    by (auto simp: monitor_inv_def cnt_update reader_must_wait_def)
next
  case (reader_exit i ts s)
  from cnt_pos [OF reader_exit(3,4)] reader_exit_fields [of s] inv reader_exit show ?thesis
    by (auto simp: monitor_inv_def cnt_update)
next
  case (writer_call i ts s s' p)
  from writer_entry_pass_cases [OF writer_call(5)] inv writer_call(1-4)
    cnt_nonneg [of Reading ts] cnt_nonneg [of Writing ts] show ?thesis
    by (auto simp: monitor_inv_def cnt_update writer_must_wait_def)
next
  case (writer_wake i ts s s' p)
  from writer_entry_pass_cases [OF writer_wake(5)] inv writer_wake(1-4)
    cnt_nonneg [of Reading ts] cnt_nonneg [of Writing ts] show ?thesis
    by (auto simp: monitor_inv_def cnt_update writer_must_wait_def)
next
  case (writer_exit i ts s)
  from cnt_pos [OF writer_exit(3,4)] writer_exit_fields [of s] inv writer_exit show ?thesis
    by (auto simp: monitor_inv_def cnt_update)
next
  case (clear_call i ts s s' p)
  from clear_pass_cases [OF clear_call(5)] inv clear_call(1-4) show ?thesis
    by (auto simp: monitor_inv_def cnt_update)
next
  case (clear_wake i ts s s' p)
  from clear_pass_cases [OF clear_wake(5)] inv clear_wake(1-4) show ?thesis
    by (auto simp: monitor_inv_def cnt_update)
qed

lemma reachable_monitor_inv: "reachable st \<Longrightarrow> monitor_inv st"
  by (induction rule: reachable.induct) (auto intro: monitor_inv_init monitor_inv_step)

lemma monitor_inv_exclusion: "monitor_inv st \<Longrightarrow> exclusion (fst st)"
  using cnt_nonneg [of Writing "snd st"] by (auto simp: monitor_inv_def exclusion_def)

section \<open>Properties of the path utilities\<close>

lemma permitted_not_slash: "\<not> permitted (CHR ''/'')"
  by (simp add: permitted_def)

lemma is_name_slashfree: "is_name mx n \<Longrightarrow> slashfree n"
  using permitted_not_slash by (auto simp: is_name_def slashfree_def list_all_iff)

lemma is_name_nonempty: "is_name mx n \<Longrightarrow> n \<noteq> []"
  by (auto simp: is_name_def)

lemma fields_nonempty: "slash_fields p \<noteq> []"
  by (induction p) (auto split: list.splits)

lemma fields_slashfree_append:
  "slashfree n \<Longrightarrow> slash_fields (n @ CHR ''/'' # r) = n # slash_fields r"
  by (induction n) (auto simp: slashfree_def)

lemma fields_body:
  "list_all slashfree ns \<Longrightarrow> slash_fields (concat (map (\<lambda>n. n @ ''/'') ns)) = ns @ [[]]"
  by (induction ns) (auto simp: fields_slashfree_append)

lemma fields_render: "list_all slashfree ns \<Longrightarrow> slash_fields (render ns) = [] # ns @ [[]]"
  by (simp add: render_def fields_body)

lemma path_components_render: "list_all slashfree ns \<Longrightarrow> path_components (render ns) = ns"
  by (simp add: path_components_def fields_render)

lemma is_path_valid_render:
  "list_all (is_name mx) ns \<Longrightarrow> is_path_valid mx (render ns)"
proof -
  assume a: "list_all (is_name mx) ns"
  then have s: "list_all slashfree ns" by (auto simp: list_all_iff is_name_slashfree)
  with a show ?thesis
    by (simp add: is_path_valid_def fields_render path_components_render)
qed

lemma unfields_fields: "unfields (slash_fields p) = p"
proof (induction p)
  case Nil
  then show ?case by simp
next
  case (Cons c p)
  obtain f fs where f: "slash_fields p = f # fs"
    using fields_nonempty [of p] by (cases "slash_fields p") auto
  with Cons have u: "unfields (f # fs) = p" by simp
  show ?case
  proof (cases "c = CHR ''/''")
    case True
    with f u show ?thesis by simp
  next
    case False
    with f u show ?thesis by (cases fs) auto
  qed
qed

lemma unfields_names: "unfields (ns @ [[]]) = concat (map (\<lambda>n. n @ ''/'') ns)"
proof (induction ns)
  case Nil
  then show ?case by simp
next
  case (Cons n ns)
  then show ?case by (cases "ns @ [[]]") auto
qed

lemma fields_slashfree: "list_all slashfree (slash_fields p)"
  by (induction p) (auto simp: slashfree_def split: list.splits)

lemma is_path_valid_renderE:
  assumes "is_path_valid mx p"
  shows "p = render (path_components p) \<and> list_all (is_name mx) (path_components p)"
proof -
  from assms have l: "2 \<le> length (slash_fields p)" and h: "hd (slash_fields p) = []"
    and la: "last (slash_fields p) = []" and n: "list_all (is_name mx) (path_components p)"
    by (auto simp: is_path_valid_def)
  from l obtain f fs where f: "slash_fields p = f # fs" and "fs \<noteq> []"
    by (cases "slash_fields p") (auto simp: Suc_le_eq)
  with h la have e: "slash_fields p = [] # butlast fs @ [[]]"
    by (metis append_butlast_last_id last_ConsR list.sel(1))
  then have "path_components p = butlast fs" using f by (simp add: path_components_def)
  moreover from e have "unfields (slash_fields p) = CHR ''/'' # unfields (butlast fs @ [[]])"
    by (cases "butlast fs @ [[]]") auto
  ultimately have "p = render (path_components p)"
    by (simp add: unfields_fields unfields_names render_def)
  with n show ?thesis by simp
qed

lemma split_path_render_Nil: "split_path (render []) = None"
  by (simp add: split_path_def render_def)

lemma takeWhile_slashfree:
  "slashfree n \<Longrightarrow> takeWhile (\<lambda>x. x \<noteq> CHR ''/'') (n @ CHR ''/'' # r) = n"
  by (induction n) (auto simp: slashfree_def)

lemma dropWhile_slashfree:
  "slashfree n \<Longrightarrow> dropWhile (\<lambda>x. x \<noteq> CHR ''/'') (n @ CHR ''/'' # r) = CHR ''/'' # r"
  by (induction n) (auto simp: slashfree_def)

lemma split_path_render_Cons:
  "slashfree n \<Longrightarrow> split_path (render (n # ns)) = Some (n, render ns)"
  by (simp add: split_path_def render_def takeWhile_slashfree dropWhile_slashfree)


lemma render_snoc: "render (ns @ [n]) = render ns @ n @ ''/''"
  by (simp add: render_def)

lemma render_last_slash: "\<exists>r. render ns = r @ ''/''"
  by (cases ns rule: rev_cases) (auto simp: render_def)

lemma is_root_render: "list_all (\<lambda>n. n \<noteq> []) ns \<Longrightarrow> is_root (render ns) \<longleftrightarrow> ns = []"
  by (cases ns) (auto simp: is_root_def render_def)

lemma make_path_to_parent_render:
  assumes "slashfree n"
  shows "make_path_to_parent (render (ns @ [n])) = Some (render ns, n)"
proof -
  obtain r where r: "render ns = r @ ''/''" using render_last_slash by blast
  have ne: "render (ns @ [n]) \<noteq> ''/''" by (simp add: render_snoc r)
  have b: "rev (butlast (render (ns @ [n]))) = rev n @ CHR ''/'' # rev r"
    by (simp add: render_snoc r butlast_append)
  from assms have sf: "slashfree (rev n)" by (simp add: slashfree_def)
  show ?thesis
    using ne by (simp add: make_path_to_parent_def Let_def b takeWhile_slashfree [OF sf]
        dropWhile_slashfree [OF sf] r)
qed

lemma make_path_to_parent_root: "make_path_to_parent (render []) = None"
  by (simp add: make_path_to_parent_def render_def)

lemma count_slashes_render:
  "list_all slashfree ns \<Longrightarrow> count_slashes (render ns) = length ns + 1"
  by (induction ns) (auto simp: count_slashes_def render_def slashfree_def filter_id_conv
      filter_empty_conv)

lemma common_files_render:
  "list_all slashfree xs \<Longrightarrow> list_all slashfree ys \<Longrightarrow>
   common_files (render xs) (render ys) = length (longest_common_prefix xs ys) + 1"
  by (simp add: common_files_def path_components_render)

lemma prefix_slashfree:
  assumes "slashfree x" and "slashfree y"
    and "prefix (x @ CHR ''/'' # r) (y @ CHR ''/'' # r')"
  shows "x = y \<and> prefix r r'"
proof -
  from assms(3) obtain z where z: "y @ CHR ''/'' # r' = (x @ CHR ''/'' # r) @ z"
    by (auto simp: prefix_def)
  then have "takeWhile (\<lambda>c. c \<noteq> CHR ''/'') (y @ CHR ''/'' # r') =
      takeWhile (\<lambda>c. c \<noteq> CHR ''/'') (x @ CHR ''/'' # (r @ z))" by simp
  with assms(1,2) have "x = y" by (simp add: takeWhile_slashfree)
  with z show ?thesis by (auto simp: prefix_def)
qed

lemma prefix_body:
  "list_all slashfree xs \<Longrightarrow> list_all slashfree ys \<Longrightarrow>
   prefix (concat (map (\<lambda>n. n @ ''/'') xs)) (concat (map (\<lambda>n. n @ ''/'') ys)) \<Longrightarrow>
   prefix xs ys"
proof (induction xs arbitrary: ys)
  case Nil
  then show ?case by simp
next
  case (Cons x xs)
  show ?case
  proof (cases ys)
    case Nil
    with Cons.prems show ?thesis by simp
  next
    case (Cons y ys')
    from Cons.prems(1) have sx: "slashfree x" and sxs: "list_all slashfree xs" by simp_all
    from Cons.prems(2) Cons have sy: "slashfree y" and sys: "list_all slashfree ys'" by simp_all
    from Cons.prems(3) Cons
    have "prefix (x @ CHR ''/'' # concat (map (\<lambda>n. n @ ''/'') xs))
        (y @ CHR ''/'' # concat (map (\<lambda>n. n @ ''/'') ys'))" by simp
    from prefix_slashfree [OF sx sy this]
    have xy: "x = y" and p: "prefix (concat (map (\<lambda>n. n @ ''/'') xs))
        (concat (map (\<lambda>n. n @ ''/'') ys'))" by simp_all
    from Cons.IH [OF sxs sys p] xy Cons show ?thesis by simp
  qed
qed

lemma prefix_render:
  "list_all slashfree xs \<Longrightarrow> list_all slashfree ys \<Longrightarrow>
   prefix (render xs) (render ys) \<longleftrightarrow> prefix xs ys"
proof
  assume "list_all slashfree xs" "list_all slashfree ys" "prefix (render xs) (render ys)"
  then show "prefix xs ys" by (simp add: render_def prefix_body)
next
  assume "prefix xs ys"
  then obtain zs where "ys = xs @ zs" by (auto simp: prefix_def)
  then show "prefix (render xs) (render ys)" by (simp add: render_def)
qed

lemma render_inj:
  "list_all slashfree xs \<Longrightarrow> list_all slashfree ys \<Longrightarrow> render xs = render ys \<Longrightarrow> xs = ys"
  by (metis path_components_render)

text \<open>The test \<open>size < strlen(target) && strncmp(source, target, size) == 0\<close>.\<close>

lemma ancestor_test:
  "length s < length t \<and> take (length s) s = take (length s) t \<longleftrightarrow> prefix s t \<and> s \<noteq> t"
proof
  assume a: "length s < length t \<and> take (length s) s = take (length s) t"
  then have "s = take (length s) t" by simp
  then have "prefix s t" by (metis take_is_prefix)
  with a show "prefix s t \<and> s \<noteq> t" by auto
next
  assume a: "prefix s t \<and> s \<noteq> t"
  then obtain z where z: "t = s @ z" by (auto simp: prefix_def)
  with a have "z \<noteq> []" by auto
  with z show "length s < length t \<and> take (length s) s = take (length s) t" by simp
qed

lemma ancestor_test_render:
  assumes "list_all slashfree xs" and "list_all slashfree ys"
  shows "length (render xs) < length (render ys) \<and>
         take (length (render xs)) (render xs) = take (length (render xs)) (render ys)
         \<longleftrightarrow> strict_prefix xs ys"
proof -
  have "prefix (render xs) (render ys) \<and> render xs \<noteq> render ys \<longleftrightarrow> prefix xs ys \<and> xs \<noteq> ys"
    using assms render_inj [OF assms] by (auto simp: prefix_render)
  then show ?thesis unfolding ancestor_test by (simp add: strict_prefix_def)
qed

section \<open>Properties of the store\<close>

lemma map_entry_comp:
  "AList.map_entry k f (AList.map_entry k g m) = AList.map_entry k (f \<circ> g) m"
  by (induction m) auto

lemma map_entry_commute:
  "k \<noteq> l \<Longrightarrow> AList.map_entry k f (AList.map_entry l g m) =
     AList.map_entry l g (AList.map_entry k f m)"
  by (induction m) auto

lemma map_entry_cong_value:
  "(\<And>v. map_of m k = Some v \<Longrightarrow> f v = g v) \<Longrightarrow> AList.map_entry k f m = AList.map_entry k g m"
  by (induction m) auto

lemma map_entry_id:
  "(\<And>v. map_of m k = Some v \<Longrightarrow> f v = v) \<Longrightarrow> AList.map_entry k f m = m"
  by (induction m) auto

lemma map_entry_absent: "map_of m k = None \<Longrightarrow> AList.map_entry k f m = m"
  by (induction m) (auto split: if_splits)

lemma map_of_map_entry_same:
  "map_of (AList.map_entry k f m) k = map_option f (map_of m k)"
  by (induction m) auto

lemma map_of_map_entry_other:
  "k \<noteq> l \<Longrightarrow> map_of (AList.map_entry k f m) l = map_of m l"
  by (induction m) auto

lemma get_node_append:
  "get_node t (a @ b) = (case get_node t a of None \<Rightarrow> None | Some n \<Rightarrow> get_node n b)"
  by (induction a arbitrary: t) (auto split: option.splits)

lemma upd_node_append: "upd_node f (a @ b) t = upd_node (upd_node f b) a t"
proof (induction a arbitrary: t)
  case Nil
  then show ?case by simp
next
  case (Cons c a)
  have "AList.map_entry c (upd_node f (a @ b)) (tmap t) =
      AList.map_entry c (upd_node (upd_node f b) a) (tmap t)"
    by (rule map_entry_cong_value) (rule Cons.IH)
  then show ?case by simp
qed

lemma get_upd_same: "get_node (upd_node f a t) a = map_option f (get_node t a)"
  by (induction a arbitrary: t) (auto simp: map_of_map_entry_same split: option.splits)

lemma upd_upd_same: "upd_node f a (upd_node g a t) = upd_node (\<lambda>n. f (g n)) a t"
proof (induction a arbitrary: t)
  case Nil
  then show ?case by simp
next
  case (Cons c a)
  have "AList.map_entry c (upd_node f a \<circ> upd_node g a) (tmap t) =
      AList.map_entry c (upd_node (\<lambda>n. f (g n)) a) (tmap t)"
    by (rule map_entry_cong_value) (simp add: Cons.IH)
  then show ?case by (simp add: map_entry_comp)
qed

lemma upd_node_id:
  "get_node t a = Some n \<Longrightarrow> f n = n \<Longrightarrow> upd_node f a t = t"
proof (induction a arbitrary: t)
  case Nil
  then show ?case by simp
next
  case (Cons c a)
  then obtain ch where ch: "map_of (tmap t) c = Some ch" and g: "get_node ch a = Some n"
    by (auto split: option.splits)
  from Cons.IH [OF g Cons.prems(2)] ch
  have "AList.map_entry c (upd_node f a) (tmap t) = tmap t"
    by (intro map_entry_id) simp
  then show ?case by simp
qed

lemma upd_node_invalid: "get_node t a = None \<Longrightarrow> upd_node f a t = t"
proof (induction a arbitrary: t)
  case Nil
  then show ?case by simp
next
  case (Cons c a)
  show ?case
  proof (cases "map_of (tmap t) c")
    case None
    then show ?thesis by (simp add: map_entry_absent)
  next
    case (Some ch)
    with Cons.prems have "get_node ch a = None" by simp
    from Cons.IH [OF this] Some
    have "AList.map_entry c (upd_node f a) (tmap t) = tmap t"
      by (intro map_entry_id) simp
    then show ?thesis by simp
  qed
qed


lemma get_upd_above:
  "get_node (upd_node F (b @ q) t) b = map_option (upd_node F q) (get_node t b)"
  by (simp add: upd_node_append get_upd_same)

lemma tmap_upd_sync_Nil [simp]: "tmap (map_tsync f n) = tmap n"
  by (simp add: map_tsync_def)

lemma tsync_map_tsync [simp]: "tsync (map_tsync f n) = f (tsync n)"
  by (simp add: map_tsync_def)

lemma tsync_map_tmap [simp]: "tsync (map_tmap f n) = tsync n"
  by (simp add: map_tmap_def)

lemma tmap_map_tmap [simp]: "tmap (map_tmap f n) = f (tmap n)"
  by (simp add: map_tmap_def)

lemma tsync_upd_node_Cons [simp]: "tsync (upd_node F (c # a) t) = tsync t"
  by simp

lemma get_upd_parallel:
  "c \<noteq> d \<Longrightarrow> get_node (upd_node F (p @ c # a) t) (p @ d # b) = get_node t (p @ d # b)"
proof -
  assume cd: "c \<noteq> d"
  have "\<And>n. get_node (upd_node F (c # a) n) (d # b) = get_node n (d # b)"
    using cd by (simp add: map_of_map_entry_other)
  then show ?thesis
    by (cases "get_node t p")
      (simp_all add: get_node_append [of _ p] upd_node_append [of _ p] get_upd_same)
qed

lemma get_upd_sync_below:
  "get_node (upd_node (map_tsync f) a t) (a @ c # b) = get_node t (a @ c # b)"
  by (cases "get_node t a") (simp_all add: get_node_append [of _ a] get_upd_same)

lemma address_cases:
  fixes a b :: ptr
  obtains (same) "a = b"
    | (below) c q where "b = a @ c # q"
    | (above) c q where "a = b @ c # q"
    | (apart) p c a' d b' where "a = p @ c # a'" and "b = p @ d # b'" and "c \<noteq> d"
proof (cases "prefix a b")
  case True
  then obtain q where "b = a @ q" by (auto simp: prefix_def)
  then show ?thesis using same below by (cases q) auto
next
  case False
  show ?thesis
  proof (cases "prefix b a")
    case True
    then obtain q where "a = b @ q" by (auto simp: prefix_def)
    then show ?thesis using same above by (cases q) auto
  next
    case False
    with \<open>\<not> prefix a b\<close> have "parallel a b" by (simp add: parallel_def)
    from parallel_decomp [OF this] apart show ?thesis by blast
  qed
qed

lemma sync_at_upd_sync:
  "map_option tsync (get_node (upd_node (map_tsync f) a t) b) =
     (if a = b then map_option (\<lambda>n. f (tsync n)) (get_node t b)
      else map_option tsync (get_node t b))"
proof (cases a b rule: address_cases)
  case same
  then show ?thesis by (simp add: get_upd_same option.map_comp comp_def)
next
  case (below c q)
  then show ?thesis by (simp add: get_upd_sync_below)
next
  case (above c q)
  then show ?thesis by (simp add: get_upd_above option.map_comp comp_def)
next
  case (apart p c a' d b')
  then show ?thesis by (simp add: get_upd_parallel)
qed

lemma exists_upd_sync:
  "get_node (upd_node (map_tsync f) a t) b = None \<longleftrightarrow> get_node t b = None"
  using sync_at_upd_sync [of f a t b] by (auto split: if_splits)

lemma upd_commute_nested:
  assumes "\<And>n. F (upd_node G q n) = upd_node G q (F n)"
  shows "upd_node F a (upd_node G (a @ q) t) = upd_node G (a @ q) (upd_node F a t)"
  by (simp add: upd_node_append [of _ a] upd_upd_same assms)

lemma upd_commute_apart:
  assumes "c \<noteq> d"
  shows "upd_node F (p @ c # a) (upd_node G (p @ d # b) t) =
         upd_node G (p @ d # b) (upd_node F (p @ c # a) t)"
  using assms by (simp add: upd_node_append [of _ p] upd_upd_same map_entry_commute)

lemma upd_sync_commute:
  assumes "a \<noteq> b"
  shows "upd_node (map_tsync f) a (upd_node (map_tsync g) b t) =
         upd_node (map_tsync g) b (upd_node (map_tsync f) a t)"
proof (cases a b rule: address_cases)
  case same
  with assms show ?thesis by simp
next
  case (below c q)
  have "\<And>n. map_tsync f (upd_node (map_tsync g) (c # q) n) =
      upd_node (map_tsync g) (c # q) (map_tsync f n)"
    by (simp add: map_tsync_def)
  from upd_commute_nested [of "map_tsync f" "map_tsync g" "c # q", OF this] below
  show ?thesis by simp
next
  case (above c q)
  have "\<And>n. map_tsync g (upd_node (map_tsync f) (c # q) n) =
      upd_node (map_tsync f) (c # q) (map_tsync g n)"
    by (simp add: map_tsync_def)
  from upd_commute_nested [of "map_tsync g" "map_tsync f" "c # q", OF this] above
  show ?thesis by simp
next
  case (apart p c a' d b')
  then show ?thesis by (simp add: upd_commute_apart)
qed

lemma upd_node_cong:
  "get_node t a = Some n \<Longrightarrow> f n = g n \<Longrightarrow> upd_node f a t = upd_node g a t"
proof (induction a arbitrary: t)
  case Nil
  then show ?case by simp
next
  case (Cons c a)
  then obtain ch where ch: "map_of (tmap t) c = Some ch" and g: "get_node ch a = Some n"
    by (auto split: option.splits)
  have "AList.map_entry c (upd_node f a) (tmap t) = AList.map_entry c (upd_node g a) (tmap t)"
  proof (rule map_entry_cong_value)
    fix v
    assume "map_of (tmap t) c = Some v"
    with ch g have "get_node v a = Some n" by simp
    from Cons.IH [OF this Cons.prems(2)] show "upd_node f a v = upd_node g a v" .
  qed
  then show ?case by simp
qed

lemma sync_new_free [simp]:
  "\<not> reader_must_wait sync_new" "\<not> writer_must_wait sync_new" "\<not> clear_must_wait sync_new"
  by (simp_all add: reader_must_wait_def writer_must_wait_def clear_must_wait_def sync_new_def)

lemma reader_admit_new [simp]: "fst (reader_admit sync_new) = sR"
  by (simp add: reader_admit_def sync_new_def sR_def)

lemma reader_exit_sR [simp]: "fst (reader_exit_protocol sR) = sync_new"
  by (simp add: reader_exit_protocol_def sync_new_def sR_def)

lemma writer_admit_new [simp]: "writer_admit sync_new = sW"
  by (simp add: writer_admit_def sync_new_def sW_def)

lemma writer_exit_sW [simp]: "fst (writer_exit_protocol sW) = sync_new"
  by (simp add: writer_exit_protocol_def sync_new_def sW_def)

lemma map_tsync_map_tsync [simp]: "map_tsync f (map_tsync g n) = map_tsync (\<lambda>s. f (g s)) n"
  by (simp add: map_tsync_def)

lemma set_sync_same [simp]: "set_sync s a (set_sync s' a t) = set_sync s a t"
  by (simp add: set_sync_def upd_upd_same)

lemma set_sync_commute:
  "a \<noteq> b \<Longrightarrow> set_sync s a (set_sync s' b t) = set_sync s' b (set_sync s a t)"
  by (simp add: set_sync_def upd_sync_commute)

lemma set_sync_id:
  "map_option tsync (get_node t a) = Some s \<Longrightarrow> set_sync s a t = t"
  unfolding set_sync_def by (rule upd_node_id [where n = "the (get_node t a)"]) (auto simp: map_tsync_def)

lemma sync_at_set_sync:
  "map_option tsync (get_node (set_sync s a t) b) =
     (if a = b then map_option (\<lambda>_. s) (get_node t b) else map_option tsync (get_node t b))"
  by (simp add: set_sync_def sync_at_upd_sync)

lemma exists_set_sync [simp]: "get_node (set_sync s a t) b = None \<longleftrightarrow> get_node t b = None"
  by (simp add: set_sync_def exists_upd_sync)

lemma get_set_sync_below [simp]:
  "get_node (set_sync s a t) (a @ c # b) = get_node t (a @ c # b)"
  by (simp add: set_sync_def get_upd_sync_below)

lemma reader_entry_on_new:
  "map_option tsync (get_node t a) = Some sync_new \<Longrightarrow>
   reader_entry_on a (t, lg) = Some (set_sync sR a t, lg @ [Reader_entry a])"
  by (auto simp: reader_entry_on_def set_sync_def map_tsync_def intro!: upd_node_cong)

lemma writer_entry_on_new:
  "map_option tsync (get_node t a) = Some sync_new \<Longrightarrow>
   writer_entry_on a (t, lg) = Some (set_sync sW a t, lg @ [Writer_entry a])"
  by (auto simp: writer_entry_on_def set_sync_def map_tsync_def intro!: upd_node_cong)

lemma reader_exit_on_sR:
  "map_option tsync (get_node t a) = Some sR \<Longrightarrow>
   reader_exit_on a (t, lg) = Some (set_sync sync_new a t, lg @ [Reader_exit a])"
  by (auto simp: reader_exit_on_def set_sync_def map_tsync_def intro!: upd_node_cong)

lemma writer_exit_on_sW:
  "map_option tsync (get_node t a) = Some sW \<Longrightarrow>
   writer_exit_on a (t, lg) = Some (set_sync sync_new a t, lg @ [Writer_exit a])"
  by (auto simp: writer_exit_on_def set_sync_def map_tsync_def intro!: upd_node_cong)

lemma child_case:
  "get_node t a \<noteq> None \<Longrightarrow>
   (case map_at (t, lg) a of
      None \<Rightarrow> None
    | Some m \<Rightarrow> (case hmap_get m c of None \<Rightarrow> X | Some son \<Rightarrow> Y son)) =
   (case get_node t (a @ [c]) of None \<Rightarrow> X | Some son \<Rightarrow> Y son)"
  by (auto simp: map_at_def hmap_get_def get_node_append split: option.splits)

section \<open>The hand-over-hand descent\<close>

lemma size_sub_Suc [simp]: "size_sub (Suc n) (Suc 0) = n"
  by (simp add: size_sub_def)

lemma size_sub_le: "b \<le> a \<Longrightarrow> size_sub a b = a - b"
  by (simp add: size_sub_def)

lemma child_case_Some:
  "get_node t a \<noteq> None \<Longrightarrow> get_node t (a @ [c]) = Some son \<Longrightarrow>
   (case map_at (t, lg) a of
      None \<Rightarrow> None
    | Some m \<Rightarrow> (case hmap_get m c of None \<Rightarrow> X | Some son \<Rightarrow> Y son)) = Y son"
  by (simp add: child_case)

lemma child_case_None:
  "get_node t a \<noteq> None \<Longrightarrow> get_node t (a @ [c]) = None \<Longrightarrow>
   (case map_at (t, lg) a of
      None \<Rightarrow> None
    | Some m \<Rightarrow> (case hmap_get m c of None \<Rightarrow> X | Some son \<Rightarrow> Y son)) = X"
  by (simp add: child_case)

lemma find_node_loop_end: "find_node_loop a (render []) k st = Some (st, Inr a)"
  by (subst find_node_loop.simps) (simp add: split_path_render_Nil)

lemma find_node_loop_step:
  assumes "slashfree c" and "get_node t a \<noteq> None" and "get_node t (a @ [c]) \<noteq> None"
  shows "find_node_loop a (render (c # cs)) k (t, lg) =
     (case entry_on (size_sub k 1) (a @ [c]) (t, lg) of
        None \<Rightarrow> None
      | Some st1 \<Rightarrow>
          (case reader_exit_on a st1 of
             None \<Rightarrow> None
           | Some st2 \<Rightarrow> find_node_loop (a @ [c]) (render cs) (size_sub k 1) st2))"
proof -
  from assms(3) obtain son where s: "get_node t (a @ [c]) = Some son" by auto
  show ?thesis
    by (subst find_node_loop.simps)
      (simp add: split_path_render_Cons [OF assms(1)] child_case_Some [OF assms(2) s])
qed

lemma find_node_loop_missing:
  assumes "slashfree c" and "get_node t a \<noteq> None" and "get_node t (a @ [c]) = None"
  shows "find_node_loop a (render (c # cs)) k (t, lg) =
     (case reader_exit_on a (t, lg) of
        None \<Rightarrow> None
      | Some st1 \<Rightarrow> Some (st1, Inl ENOENT))"
  by (subst find_node_loop.simps)
    (simp add: split_path_render_Cons [OF assms(1)] child_case_None [OF assms(2,3)])

lemma hand_over_entry:
  assumes "map_option tsync (get_node t (a @ [c])) = Some sync_new"
  shows "entry_on k (a @ [c]) (set_sync sR a t, lg) =
     Some (set_sync (if k = 0 then sW else sR) (a @ [c]) (set_sync sR a t),
           lg @ [if k = 0 then Writer_entry (a @ [c]) else Reader_entry (a @ [c])])"
proof -
  have "map_option tsync (get_node (set_sync sR a t) (a @ [c])) = Some sync_new"
    using assms by (simp add: sync_at_set_sync)
  then show ?thesis
    by (simp add: entry_on_def writer_entry_on_new reader_entry_on_new)
qed

lemma hand_over_exit:
  assumes "map_option tsync (get_node t a) = Some sync_new"
  shows "reader_exit_on a (set_sync s (a @ [c]) (set_sync sR a t), lg) =
      Some (set_sync s (a @ [c]) t, lg @ [Reader_exit a])"
proof -
  have ne: "a @ [c] \<noteq> a" by simp
  have "map_option tsync (get_node (set_sync s (a @ [c]) (set_sync sR a t)) a) = Some sR"
    using assms ne by (auto simp: sync_at_set_sync)
  from reader_exit_on_sR [OF this]
  have "reader_exit_on a (set_sync s (a @ [c]) (set_sync sR a t), lg) =
      Some (set_sync sync_new a (set_sync s (a @ [c]) (set_sync sR a t)), lg @ [Reader_exit a])" .
  also have "set_sync sync_new a (set_sync s (a @ [c]) (set_sync sR a t)) =
      set_sync s (a @ [c]) (set_sync sync_new a t)"
    using ne by (simp add: set_sync_commute [of a "a @ [c]"])
  also have "set_sync sync_new a t = t" using assms by (rule set_sync_id)
  finally show ?thesis .
qed

lemma find_node_loop_ok:
  assumes "list_all slashfree cs" and "cs \<noteq> []"
    and "\<forall>q. prefix q cs \<longrightarrow> map_option tsync (get_node t (a @ q)) = Some sync_new"
  shows "find_node_loop a (render cs) (length cs) (set_sync sR a t, lg) =
     Some ((set_sync sW (a @ cs) t, lg @ descent (length cs) a cs), Inr (a @ cs))"
  using assms
proof (induction cs arbitrary: a lg)
  case Nil
  then show ?case by simp
next
  case (Cons c cs)
  from Cons.prems(3) have ia: "map_option tsync (get_node t a) = Some sync_new"
    and ic: "map_option tsync (get_node t (a @ [c])) = Some sync_new"
    by (auto dest: spec [of _ "[]"] spec [of _ "[c]"])
  from Cons.prems(1) have sc: "slashfree c" and scs: "list_all slashfree cs" by simp_all
  have ch: "get_node (set_sync sR a t) a \<noteq> None" "get_node (set_sync sR a t) (a @ [c]) \<noteq> None"
    using ia ic by auto
  note step = find_node_loop_step [OF sc ch, of cs "length (c # cs)" lg]
  show ?case
  proof (cases "cs = []")
    case True
    then show ?thesis
      by (subst step) (simp add: hand_over_entry [OF ic] hand_over_exit [OF ia] find_node_loop_end)
  next
    case False
    have "\<forall>q. prefix q cs \<longrightarrow> map_option tsync (get_node t ((a @ [c]) @ q)) = Some sync_new"
      using Cons.prems(3) by (auto dest: spec [of _ "c # q" for q])
    from Cons.IH [OF scs False this]
    have ih: "find_node_loop (a @ [c]) (render cs) (length cs) (set_sync sR (a @ [c]) t, l) =
        Some ((set_sync sW (a @ c # cs) t, l @ descent (length cs) (a @ [c]) cs), Inr (a @ c # cs))"
      for l by simp
    from False show ?thesis
      by (subst step) (simp add: hand_over_entry [OF ic] hand_over_exit [OF ia] ih)
  qed
qed

lemma find_node_loop_fail:
  assumes "list_all slashfree (pre @ [c])"
    and "\<forall>q. prefix q pre \<longrightarrow> map_option tsync (get_node t (a @ q)) = Some sync_new"
    and "get_node t (a @ pre @ [c]) = None"
  shows "find_node_loop a (render (pre @ c # rest)) (Suc (length pre + k)) (set_sync sR a t, lg) =
     Some ((t, lg @ descent (Suc (length pre + k)) a pre @ [Reader_exit (a @ pre)]), Inl ENOENT)"
  using assms
proof (induction pre arbitrary: a lg)
  case Nil
  then have ia: "map_option tsync (get_node t a) = Some sync_new" by simp
  then have ch: "get_node (set_sync sR a t) a \<noteq> None" by auto
  from Nil have m: "get_node (set_sync sR a t) (a @ [c]) = None" and sc: "slashfree c" by simp_all
  have "map_option tsync (get_node (set_sync sR a t) a) = Some sR"
    using ia by (auto simp: sync_at_set_sync)
  from reader_exit_on_sR [OF this] set_sync_id [OF ia]
  have "reader_exit_on a (set_sync sR a t, lg) = Some (t, lg @ [Reader_exit a])" by simp
  then show ?case
    by (simp add: find_node_loop_missing [OF sc ch m])
next
  case (Cons d pre)
  from Cons.prems(2) have ia: "map_option tsync (get_node t a) = Some sync_new"
    and ic: "map_option tsync (get_node t (a @ [d])) = Some sync_new"
    by (auto dest: spec [of _ "[]"] spec [of _ "[d]"])
  from Cons.prems(1) have sd: "slashfree d" and scs: "list_all slashfree (pre @ [c])" by simp_all
  have ch: "get_node (set_sync sR a t) a \<noteq> None" "get_node (set_sync sR a t) (a @ [d]) \<noteq> None"
    using ia ic by auto
  note step = find_node_loop_step [OF sd ch, of "pre @ c # rest" "Suc (length (d # pre) + k)" lg]
  have "\<forall>q. prefix q pre \<longrightarrow> map_option tsync (get_node t ((a @ [d]) @ q)) = Some sync_new"
    using Cons.prems(2) by (auto dest: spec [of _ "d # q" for q])
  moreover from Cons.prems(3) have "get_node t ((a @ [d]) @ pre @ [c]) = None" by simp
  ultimately have ih: "find_node_loop (a @ [d]) (render (pre @ c # rest)) (Suc (length pre + k))
        (set_sync sR (a @ [d]) t, l) =
     Some ((t, l @ descent (Suc (length pre + k)) (a @ [d]) pre @ [Reader_exit (a @ d # pre)]),
       Inl ENOENT)" for l
    using Cons.IH [OF scs, of "a @ [d]" l] by simp
  show ?case
    unfolding append_Cons
    by (subst step) (simp add: hand_over_entry [OF ic] hand_over_exit [OF ia] ih)
qed

lemma idle_get: "idle t \<Longrightarrow> get_node t a = Some n \<Longrightarrow> idle n"
proof (induction a arbitrary: t)
  case Nil
  then show ?case by simp
next
  case (Cons c a)
  then obtain ch where ch: "map_of (tmap t) c = Some ch" and g: "get_node ch a = Some n"
    by (auto split: option.splits)
  from ch have "(c, ch) \<in> set (tmap t)" by (rule map_of_SomeD)
  with Cons.prems(1) have "idle ch" by (cases t) auto
  from Cons.IH [OF this g] show ?case .
qed

lemma idle_sync: "idle t \<Longrightarrow> get_node t a = Some n \<Longrightarrow> tsync n = sync_new"
  using idle_get [of t a n] by (cases n) auto

lemma get_node_prefix: "get_node t (a @ b) \<noteq> None \<Longrightarrow> get_node t a \<noteq> None"
  by (auto simp: get_node_append split: option.splits)

lemma idle_path:
  assumes "idle t" and "get_node t (a @ cs) \<noteq> None"
  shows "\<forall>q. prefix q cs \<longrightarrow> map_option tsync (get_node t (a @ q)) = Some sync_new"
proof (intro allI impI)
  fix q
  assume "prefix q cs"
  then obtain r where "cs = q @ r" by (auto simp: prefix_def)
  with assms(2) have "get_node t ((a @ q) @ r) \<noteq> None" by simp
  then have "get_node t (a @ q) \<noteq> None" by (rule get_node_prefix)
  then obtain n where n: "get_node t (a @ q) = Some n" by auto
  with idle_sync [OF assms(1) n] show "map_option tsync (get_node t (a @ q)) = Some sync_new"
    by simp
qed

lemma missing_split:
  "get_node t cs = None \<Longrightarrow>
   \<exists>pre c rest. cs = pre @ c # rest \<and> get_node t pre \<noteq> None \<and> get_node t (pre @ [c]) = None"
proof (induction cs rule: rev_induct)
  case Nil
  then show ?case by simp
next
  case (snoc x xs)
  show ?case
  proof (cases "get_node t xs")
    case None
    from snoc.IH [OF this] obtain pre c rest where
      "xs = pre @ c # rest" "get_node t pre \<noteq> None" "get_node t (pre @ [c]) = None" by blast
    then have "xs @ [x] = pre @ c # (rest @ [x]) \<and> get_node t pre \<noteq> None \<and>
        get_node t (pre @ [c]) = None" by simp
    then show ?thesis by blast
  next
    case (Some n)
    with snoc.prems have "xs @ [x] = xs @ x # [] \<and> get_node t xs \<noteq> None \<and>
        get_node t (xs @ [x]) = None" by simp
    then show ?thesis by blast
  qed
qed

text \<open>The calls of \<open>find_node\<close> on a path that exists.\<close>

lemma find_node_ok:
  assumes "idle t" and "list_all slashfree cs" and "get_node t (a @ cs) \<noteq> None"
  shows "find_node a (render cs) (length cs) (t, lg) =
     Some ((set_sync sW (a @ cs) t,
            lg @ (if cs = [] then Writer_entry a else Reader_entry a) # descent (length cs) a cs),
           Inr (a @ cs))"
proof -
  note ip = idle_path [OF assms(1,3)]
  then have ia: "map_option tsync (get_node t a) = Some sync_new" by (auto dest: spec [of _ "[]"])
  show ?thesis
  proof (cases "cs = []")
    case True
    with ia show ?thesis
      by (simp add: find_node_def entry_on_def writer_entry_on_new find_node_loop_end)
  next
    case False
    with ia show ?thesis
      by (simp add: find_node_def entry_on_def reader_entry_on_new
          find_node_loop_ok [OF assms(2) False ip])
  qed
qed

lemma find_node_fail:
  assumes "idle t" and "list_all slashfree (pre @ [c])"
    and "get_node t (a @ pre) \<noteq> None" and "get_node t (a @ pre @ [c]) = None"
  shows "find_node a (render (pre @ c # rest)) (length (pre @ c # rest)) (t, lg) =
     Some ((t, lg @ Reader_entry a # descent (length (pre @ c # rest)) a pre @
                 [Reader_exit (a @ pre)]),
           Inl ENOENT)"
proof -
  note ip = idle_path [OF assms(1,3)]
  then have ia: "map_option tsync (get_node t a) = Some sync_new" by (auto dest: spec [of _ "[]"])
  from find_node_loop_fail [OF assms(2) ip assms(4), of rest "length rest" "lg @ [Reader_entry a]"] ia
  show ?thesis
    by (simp add: find_node_def entry_on_def reader_entry_on_new)
qed

section \<open>The operations on an idle tree\<close>

lemma valid_nonroot_render:
  assumes "is_path_valid mx p" and "\<not> is_root p"
  obtains ns n where "p = render (ns @ [n])" and "list_all (is_name mx) (ns @ [n])"
proof -
  from is_path_valid_renderE [OF assms(1)]
  have p: "p = render (path_components p)" and l: "list_all (is_name mx) (path_components p)"
    by simp_all
  from p assms(2) have "path_components p \<noteq> []"
    by (auto simp: is_root_def render_def)
  then obtain ns n where "path_components p = ns @ [n]"
    by (cases "path_components p" rule: rev_cases) auto
  with p l that show ?thesis by metis
qed

lemma names_slashfree: "list_all (is_name mx) ns \<Longrightarrow> list_all slashfree ns"
  by (auto simp: list_all_iff is_name_slashfree)

lemma names_nonempty: "list_all (is_name mx) ns \<Longrightarrow> list_all (\<lambda>n. n \<noteq> []) ns"
  using is_name_nonempty [of mx "[]"] by (auto simp: list_all_iff)

lemma not_root_render_snoc: "\<not> is_root (render (ns @ [n]))"
  by (cases ns) (auto simp: is_root_def render_def)

lemma writer_exit_held:
  assumes "map_option tsync (get_node t a) = Some sync_new"
  shows "writer_exit_on a (set_sync sW a t, lg) = Some (t, lg @ [Writer_exit a])"
proof -
  have "map_option tsync (get_node (set_sync sW a t) a) = Some sW"
    using assms by (auto simp: sync_at_set_sync)
  from writer_exit_on_sW [OF this] set_sync_id [OF assms] show ?thesis by simp
qed

lemma writer_exit_after_update:
  assumes "get_node t a = Some n" and "tsync n = sync_new"
  shows "writer_exit_on a (upd_node (map_tmap f) a (set_sync sW a t), lg) =
     Some (upd_node (map_tmap f) a t, lg @ [Writer_exit a])"
proof -
  have "upd_node (map_tsync (\<lambda>s. fst (writer_exit_protocol s))) a
      (upd_node (map_tmap f) a (set_sync sW a t)) = upd_node (map_tmap f) a t"
    unfolding set_sync_def upd_upd_same
    by (rule upd_node_cong [OF assms(1)]) (simp add: map_tmap_def map_tsync_def assms(2))
  moreover have "get_node (upd_node (map_tmap f) a (set_sync sW a t)) a \<noteq> None"
    using assms(1) by (simp add: get_upd_same set_sync_def)
  ultimately show ?thesis by (auto simp: writer_exit_on_def)
qed

lemma tree_create_unfold:
  assumes "list_all (is_name mx) (ns @ [n])"
  shows "tree_create mx st (render (ns @ [n])) =
     (case find_node [] (render ns) (length ns) st of
        None \<Rightarrow> None
      | Some (st1, Inl err) \<Rightarrow> Some (st1, err)
      | Some (st1, Inr tree) \<Rightarrow>
          (case map_at st1 tree of
             None \<Rightarrow> None
           | Some m \<Rightarrow>
               (case hmap_get m n of
                  None \<Rightarrow>
                    (case writer_exit_on tree (insert_at tree n tree_new st1) of
                       None \<Rightarrow> None
                     | Some st3 \<Rightarrow> Some (st3, 0))
                | Some son \<Rightarrow>
                    (case writer_exit_on tree st1 of
                       None \<Rightarrow> None
                     | Some st3 \<Rightarrow> Some (st3, EEXIST)))))"
proof -
  from assms have v: "is_path_valid mx (render (ns @ [n]))" by (rule is_path_valid_render)
  from assms have sf: "slashfree n" "list_all slashfree ns"
    using names_slashfree [OF assms] by simp_all
  show ?thesis
    by (simp add: tree_create_def v not_root_render_snoc make_path_to_parent_render sf
        count_slashes_render size_sub_def
        split: option.splits sum.splits prod.splits)
qed


lemma find_node_missing:
  assumes "idle t" and "list_all slashfree ns" and "get_node t ns = None"
  shows "\<exists>lg'. find_node [] (render ns) (length ns) (t, lg) = Some ((t, lg'), Inl ENOENT)"
proof -
  from missing_split [OF assms(3)] obtain pre c rest where
    ns: "ns = pre @ c # rest" and p: "get_node t pre \<noteq> None" and c: "get_node t (pre @ [c]) = None"
    by blast
  from assms(2) ns have sf: "list_all slashfree (pre @ [c])" by simp
  from find_node_fail [of t pre c "[]" rest lg, OF assms(1) sf] p c ns show ?thesis by simp
qed

lemma tree_create_missing:
  assumes "idle t" and "list_all (is_name mx) (ns @ [n])" and "get_node t ns = None"
  shows "\<exists>lg'. tree_create mx (t, lg) (render (ns @ [n])) = Some ((t, lg'), ENOENT)"
proof -
  from names_slashfree [OF assms(2)] have "list_all slashfree ns" by simp
  from find_node_missing [OF assms(1) this assms(3), of lg] obtain lg' where
    "find_node [] (render ns) (length ns) (t, lg) = Some ((t, lg'), Inl ENOENT)" by blast
  then show ?thesis by (simp add: tree_create_unfold [OF assms(2)])
qed

lemma tree_create_exists:
  assumes "idle t" and "list_all (is_name mx) (ns @ [n])" and "get_node t (ns @ [n]) \<noteq> None"
  shows "\<exists>lg'. tree_create mx (t, lg) (render (ns @ [n])) = Some ((t, lg'), EEXIST)"
proof -
  from names_slashfree [OF assms(2)] have sf: "list_all slashfree ns" by simp
  from assms(3) have ex: "get_node t ([] @ ns) \<noteq> None" using get_node_prefix [of t ns "[n]"] by simp
  then obtain p where p: "get_node t ns = Some p" by auto
  from idle_sync [OF assms(1) p] p have ip: "map_option tsync (get_node t ns) = Some sync_new" by simp
  from assms(3) obtain son where son: "get_node (set_sync sW ns t) (ns @ [n]) = Some son" by auto
  have pe: "get_node (set_sync sW ns t) ns \<noteq> None" using p by simp
  show ?thesis
    by (simp add: tree_create_unfold [OF assms(2)] find_node_ok [OF assms(1) sf ex]
        child_case_Some [OF pe son] writer_exit_held [OF ip])
qed

lemma tree_create_new:
  assumes "idle t" and "list_all (is_name mx) (ns @ [n])"
    and "get_node t ns \<noteq> None" and "get_node t (ns @ [n]) = None"
  shows "\<exists>lg'. tree_create mx (t, lg) (render (ns @ [n])) =
     Some ((upd_node (map_tmap (\<lambda>m. hmap_insert m n tree_new)) ns t, lg'), 0)"
proof -
  from names_slashfree [OF assms(2)] have sf: "list_all slashfree ns" by simp
  from assms(3) have ex: "get_node t ([] @ ns) \<noteq> None" by simp
  from assms(3) obtain p where p: "get_node t ns = Some p" by auto
  note ps = idle_sync [OF assms(1) p]
  from assms(4) have son: "get_node (set_sync sW ns t) (ns @ [n]) = None" by simp
  have pe: "get_node (set_sync sW ns t) ns \<noteq> None" using p by simp
  show ?thesis
    by (simp add: tree_create_unfold [OF assms(2)] find_node_ok [OF assms(1) sf ex]
        child_case_None [OF pe son] insert_at_def writer_exit_after_update [OF p ps])
qed


lemma hmap_size_zero [simp]: "hmap_size m = 0 \<longleftrightarrow> m = []"
  by (simp add: hmap_size_def)

lemma tree_remove_unfold:
  assumes "list_all (is_name mx) (ns @ [n])"
  shows "tree_remove mx st (render (ns @ [n])) =
     (case find_node [] (render ns) (length ns) st of
        None \<Rightarrow> None
      | Some (st1, Inl err) \<Rightarrow> Some (st1, err)
      | Some (st1, Inr tree) \<Rightarrow>
          (case map_at st1 tree of
             None \<Rightarrow> None
           | Some m \<Rightarrow>
               (case hmap_get m n of
                  None \<Rightarrow>
                    (case writer_exit_on tree st1 of
                       None \<Rightarrow> None
                     | Some st3 \<Rightarrow> Some (st3, ENOENT))
                | Some son \<Rightarrow>
                    if clear_must_wait (tsync son) then None
                    else if tmap son \<noteq> [] then
                      (case writer_exit_on tree st1 of
                         None \<Rightarrow> None
                       | Some st3 \<Rightarrow> Some (st3, ENOTEMPTY))
                    else
                      (case writer_exit_on tree (remove_at tree n st1) of
                         None \<Rightarrow> None
                       | Some st3 \<Rightarrow> Some (st3, 0)))))"
proof -
  from assms have v: "is_path_valid mx (render (ns @ [n]))" by (rule is_path_valid_render)
  from assms have sf: "slashfree n" "list_all slashfree ns"
    using names_slashfree [OF assms] by simp_all
  show ?thesis
    by (simp add: tree_remove_def v not_root_render_snoc make_path_to_parent_render sf
        count_slashes_render size_sub_def
        split: option.splits sum.splits prod.splits)
qed

lemma tree_remove_missing:
  assumes "idle t" and "list_all (is_name mx) (ns @ [n])" and "get_node t (ns @ [n]) = None"
  shows "\<exists>lg'. tree_remove mx (t, lg) (render (ns @ [n])) = Some ((t, lg'), ENOENT)"
proof (cases "get_node t ns")
  case None
  from names_slashfree [OF assms(2)] have "list_all slashfree ns" by simp
  from find_node_missing [OF assms(1) this None, of lg] obtain lg' where
    "find_node [] (render ns) (length ns) (t, lg) = Some ((t, lg'), Inl ENOENT)" by blast
  then show ?thesis by (simp add: tree_remove_unfold [OF assms(2)])
next
  case (Some p)
  from names_slashfree [OF assms(2)] have sf: "list_all slashfree ns" by simp
  from Some have ex: "get_node t ([] @ ns) \<noteq> None" by simp
  from idle_sync [OF assms(1) Some] Some
  have ip: "map_option tsync (get_node t ns) = Some sync_new" by simp
  from assms(3) have son: "get_node (set_sync sW ns t) (ns @ [n]) = None" by simp
  have pe: "get_node (set_sync sW ns t) ns \<noteq> None" using Some by simp
  show ?thesis
    by (simp add: tree_remove_unfold [OF assms(2)] find_node_ok [OF assms(1) sf ex]
        child_case_None [OF pe son] writer_exit_held [OF ip])
qed

lemma tree_remove_nonempty:
  assumes "idle t" and "list_all (is_name mx) (ns @ [n])"
    and "get_node t (ns @ [n]) = Some son" and "tmap son \<noteq> []"
  shows "\<exists>lg'. tree_remove mx (t, lg) (render (ns @ [n])) = Some ((t, lg'), ENOTEMPTY)"
proof -
  from names_slashfree [OF assms(2)] have sf: "list_all slashfree ns" by simp
  from assms(3) have ex: "get_node t ([] @ ns) \<noteq> None" using get_node_prefix [of t ns "[n]"] by simp
  then obtain p where p: "get_node t ns = Some p" by auto
  from idle_sync [OF assms(1) p] p have ip: "map_option tsync (get_node t ns) = Some sync_new" by simp
  from assms(3) have son: "get_node (set_sync sW ns t) (ns @ [n]) = Some son" by simp
  have pe: "get_node (set_sync sW ns t) ns \<noteq> None" using p by simp
  from idle_sync [OF assms(1,3)] have q: "\<not> clear_must_wait (tsync son)" by simp
  show ?thesis
    by (simp add: tree_remove_unfold [OF assms(2)] find_node_ok [OF assms(1) sf ex]
        child_case_Some [OF pe son] q assms(4) writer_exit_held [OF ip])
qed

lemma tree_remove_empty:
  assumes "idle t" and "list_all (is_name mx) (ns @ [n])"
    and "get_node t (ns @ [n]) = Some son" and "tmap son = []"
  shows "\<exists>lg'. tree_remove mx (t, lg) (render (ns @ [n])) =
     Some ((upd_node (map_tmap (\<lambda>m. hmap_remove m n)) ns t, lg'), 0)"
proof -
  from names_slashfree [OF assms(2)] have sf: "list_all slashfree ns" by simp
  from assms(3) have ex: "get_node t ([] @ ns) \<noteq> None" using get_node_prefix [of t ns "[n]"] by simp
  then obtain p where p: "get_node t ns = Some p" by auto
  note ps = idle_sync [OF assms(1) p]
  from assms(3) have son: "get_node (set_sync sW ns t) (ns @ [n]) = Some son" by simp
  have pe: "get_node (set_sync sW ns t) ns \<noteq> None" using p by simp
  from idle_sync [OF assms(1,3)] have q: "\<not> clear_must_wait (tsync son)" by simp
  show ?thesis
    by (simp add: tree_remove_unfold [OF assms(2)] find_node_ok [OF assms(1) sf ex]
        child_case_Some [OF pe son] q assms(4) remove_at_def writer_exit_after_update [OF p ps])
qed

text \<open>\<open>tree_list\<close>.\<close>

lemma list_loop_step:
  assumes "slashfree c" and "get_node t a \<noteq> None" and "get_node t (a @ [c]) \<noteq> None"
  shows "list_loop a (render (c # cs)) (t, lg) =
     (case reader_entry_on (a @ [c]) (t, lg) of
        None \<Rightarrow> None
      | Some st1 \<Rightarrow>
          (case reader_exit_on a st1 of
             None \<Rightarrow> None
           | Some st2 \<Rightarrow> list_loop (a @ [c]) (render cs) st2))"
proof -
  from assms(3) obtain son where s: "get_node t (a @ [c]) = Some son" by auto
  show ?thesis
    by (subst list_loop.simps)
      (simp add: split_path_render_Cons [OF assms(1)] child_case_Some [OF assms(2) s])
qed

lemma list_loop_missing:
  assumes "slashfree c" and "get_node t a \<noteq> None" and "get_node t (a @ [c]) = None"
  shows "list_loop a (render (c # cs)) (t, lg) =
     (case reader_exit_on a (t, lg) of
        None \<Rightarrow> None
      | Some st1 \<Rightarrow> Some (st1, None))"
  by (subst list_loop.simps)
    (simp add: split_path_render_Cons [OF assms(1)] child_case_None [OF assms(2,3)])

lemma list_loop_end:
  assumes "get_node t a = Some n"
  shows "list_loop a (render []) (t, lg) =
     (case reader_exit_on a (t, lg) of
        None \<Rightarrow> None
      | Some st1 \<Rightarrow> Some (st1, Some (make_map_contents_string (tmap n))))"
  by (subst list_loop.simps) (simp add: split_path_render_Nil map_at_def assms)

lemma reader_exit_held:
  assumes "map_option tsync (get_node t a) = Some sync_new"
  shows "reader_exit_on a (set_sync sR a t, lg) = Some (t, lg @ [Reader_exit a])"
proof -
  have "map_option tsync (get_node (set_sync sR a t) a) = Some sR"
    using assms by (auto simp: sync_at_set_sync)
  from reader_exit_on_sR [OF this] set_sync_id [OF assms] show ?thesis by simp
qed

lemma tmap_get_set_sync:
  "map_option tmap (get_node (set_sync s a t) a) = map_option tmap (get_node t a)"
  by (simp add: set_sync_def get_upd_same option.map_comp comp_def)

lemma list_loop_ok:
  assumes "list_all slashfree cs"
    and "\<forall>q. prefix q cs \<longrightarrow> map_option tsync (get_node t (a @ q)) = Some sync_new"
    and "get_node t (a @ cs) = Some n"
  shows "\<exists>lg'. list_loop a (render cs) (set_sync sR a t, lg) =
     Some ((t, lg'), Some (make_map_contents_string (tmap n)))"
  using assms
proof (induction cs arbitrary: a lg)
  case Nil
  then have ia: "map_option tsync (get_node t a) = Some sync_new" by simp
  from Nil(3) tmap_get_set_sync [of sR a t] obtain n' where
    n': "get_node (set_sync sR a t) a = Some n'" and "tmap n' = tmap n" by auto
  then show ?case
    by (simp add: list_loop_end [OF n'] reader_exit_held [OF ia])
next
  case (Cons c cs)
  from Cons.prems(2) have ia: "map_option tsync (get_node t a) = Some sync_new"
    and ic: "map_option tsync (get_node t (a @ [c])) = Some sync_new"
    by (auto dest: spec [of _ "[]"] spec [of _ "[c]"])
  from Cons.prems(1) have sc: "slashfree c" and scs: "list_all slashfree cs" by simp_all
  have ch: "get_node (set_sync sR a t) a \<noteq> None" "get_node (set_sync sR a t) (a @ [c]) \<noteq> None"
    using ia ic by auto
  have "\<forall>q. prefix q cs \<longrightarrow> map_option tsync (get_node t ((a @ [c]) @ q)) = Some sync_new"
    using Cons.prems(2) by (auto dest: spec [of _ "c # q" for q])
  moreover from Cons.prems(3) have "get_node t ((a @ [c]) @ cs) = Some n" by simp
  ultimately obtain lg' where "list_loop (a @ [c]) (render cs)
      (set_sync sR (a @ [c]) t, lg @ [Reader_entry (a @ [c]), Reader_exit a]) =
     Some ((t, lg'), Some (make_map_contents_string (tmap n)))"
    using Cons.IH [OF scs] by blast
  moreover have "reader_entry_on (a @ [c]) (set_sync sR a t, lg) =
      Some (set_sync sR (a @ [c]) (set_sync sR a t), lg @ [Reader_entry (a @ [c])])"
    using hand_over_entry [OF ic, where k = 1 and lg = lg] by (simp add: entry_on_def)
  ultimately show ?case
    by (subst list_loop_step [OF sc ch]) (simp add: hand_over_exit [OF ia])
qed

lemma list_loop_fail:
  assumes "list_all slashfree (pre @ [c])"
    and "\<forall>q. prefix q pre \<longrightarrow> map_option tsync (get_node t (a @ q)) = Some sync_new"
    and "get_node t (a @ pre @ [c]) = None"
  shows "\<exists>lg'. list_loop a (render (pre @ c # rest)) (set_sync sR a t, lg) = Some ((t, lg'), None)"
  using assms
proof (induction pre arbitrary: a lg)
  case Nil
  then have ia: "map_option tsync (get_node t a) = Some sync_new" by simp
  then have ch: "get_node (set_sync sR a t) a \<noteq> None" by auto
  from Nil have m: "get_node (set_sync sR a t) (a @ [c]) = None" and sc: "slashfree c" by simp_all
  show ?case
    by (simp add: list_loop_missing [OF sc ch m] reader_exit_held [OF ia])
next
  case (Cons d pre)
  from Cons.prems(2) have ia: "map_option tsync (get_node t a) = Some sync_new"
    and ic: "map_option tsync (get_node t (a @ [d])) = Some sync_new"
    by (auto dest: spec [of _ "[]"] spec [of _ "[d]"])
  from Cons.prems(1) have sd: "slashfree d" and scs: "list_all slashfree (pre @ [c])" by simp_all
  have ch: "get_node (set_sync sR a t) a \<noteq> None" "get_node (set_sync sR a t) (a @ [d]) \<noteq> None"
    using ia ic by auto
  have "\<forall>q. prefix q pre \<longrightarrow> map_option tsync (get_node t ((a @ [d]) @ q)) = Some sync_new"
    using Cons.prems(2) by (auto dest: spec [of _ "d # q" for q])
  moreover from Cons.prems(3) have "get_node t ((a @ [d]) @ pre @ [c]) = None" by simp
  ultimately obtain lg' where "list_loop (a @ [d]) (render (pre @ c # rest))
      (set_sync sR (a @ [d]) t, lg @ [Reader_entry (a @ [d]), Reader_exit a]) = Some ((t, lg'), None)"
    using Cons.IH [OF scs] by blast
  moreover have "reader_entry_on (a @ [d]) (set_sync sR a t, lg) =
      Some (set_sync sR (a @ [d]) (set_sync sR a t), lg @ [Reader_entry (a @ [d])])"
    using hand_over_entry [OF ic, where k = 1 and lg = lg] by (simp add: entry_on_def)
  ultimately show ?case
    unfolding append_Cons
    by (subst list_loop_step [OF sd ch]) (simp add: hand_over_exit [OF ia])
qed

lemma tree_list_found:
  assumes "idle t" and "list_all (is_name mx) cs" and "get_node t cs = Some n"
  shows "\<exists>lg'. tree_list mx (t, lg) (render cs) =
     Some ((t, lg'), Some (make_map_contents_string (tmap n)))"
proof -
  from assms(3) have ex: "get_node t ([] @ cs) \<noteq> None" by simp
  note ip = idle_path [OF assms(1) ex]
  then have ia: "map_option tsync (get_node t []) = Some sync_new" by (auto dest: spec [of _ "[]"])
  from list_loop_ok [OF names_slashfree [OF assms(2)] ip, of n "lg @ [Reader_entry []]"] assms(3)
  obtain lg' where "list_loop [] (render cs) (set_sync sR [] t, lg @ [Reader_entry []]) =
     Some ((t, lg'), Some (make_map_contents_string (tmap n)))" by auto
  then show ?thesis
    by (simp add: tree_list_def is_path_valid_render [OF assms(2)] reader_entry_on_new [OF ia])
qed

lemma tree_list_missing:
  assumes "idle t" and "list_all (is_name mx) cs" and "get_node t cs = None"
  shows "\<exists>lg'. tree_list mx (t, lg) (render cs) = Some ((t, lg'), None)"
proof -
  from missing_split [OF assms(3)] obtain pre c rest where
    cs: "cs = pre @ c # rest" and p: "get_node t ([] @ pre) \<noteq> None"
    and c: "get_node t ([] @ pre @ [c]) = None" by auto
  note ip = idle_path [OF assms(1) p]
  then have ia: "map_option tsync (get_node t []) = Some sync_new" by (auto dest: spec [of _ "[]"])
  from names_slashfree [OF assms(2)] cs have sf: "list_all slashfree (pre @ [c])" by simp
  from list_loop_fail [OF sf ip c, of rest "lg @ [Reader_entry []]"] cs
  obtain lg' where "list_loop [] (render cs) (set_sync sR [] t, lg @ [Reader_entry []]) =
     Some ((t, lg'), None)" by auto
  then show ?thesis
    by (simp add: tree_list_def is_path_valid_render [OF assms(2)] reader_entry_on_new [OF ia])
qed

lemma listed_Nil_iff [simp]: "listed s = [] \<longleftrightarrow> s = []"
  by (cases s) (auto split: list.splits)

lemma listed_append_comma:
  "listed (x @ CHR '','' # r) =
     (if x = [] then [[]] else listed x) @ (if r = [] then [[]] else listed r)"
proof (induction x)
  case Nil
  then show ?case by (cases "listed r") auto
next
  case (Cons c x)
  show ?case
  proof (cases "x = []")
    case True
    with Cons show ?thesis by (cases "listed r") (auto split: list.splits)
  next
    case False
    then obtain f fs where "listed x = f # fs" by (cases "listed x") auto
    with Cons False show ?thesis by (auto split: list.splits)
  qed
qed

lemma listed_commafree: "s \<noteq> [] \<Longrightarrow> CHR '','' \<notin> set s \<Longrightarrow> listed s = [s]"
proof (induction s)
  case Nil
  then show ?case by simp
next
  case (Cons c s)
  then show ?case by (cases "s = []") auto
qed

lemma join_commas_Nil_iff:
  "list_all (\<lambda>k. k \<noteq> []) ks \<Longrightarrow> join_commas ks = [] \<longleftrightarrow> ks = []"
  by (induction ks rule: join_commas.induct) auto

lemma listed_join_member:
  assumes "n \<in> set ks" and "n \<noteq> []" and "CHR '','' \<notin> set n"
  shows "n \<in> set (listed (join_commas ks))"
  using assms(1)
proof (induction ks rule: join_commas.induct)
  case 1
  then show ?case by simp
next
  case (2 k)
  with assms(2,3) show ?case by (simp add: listed_commafree)
next
  case (3 k k' ks)
  show ?case
  proof (cases "n = k")
    case True
    with assms(2,3) show ?thesis by (simp add: listed_append_comma listed_commafree)
  next
    case False
    with 3 have "n \<in> set (listed (join_commas (k' # ks)))" by simp
    moreover then have "join_commas (k' # ks) \<noteq> []" by auto
    ultimately show ?thesis by (simp add: listed_append_comma)
  qed
qed

lemma listed_join:
  assumes "list_all (\<lambda>k. k \<noteq> [] \<and> CHR '','' \<notin> set k) ks"
  shows "listed (join_commas ks) = ks"
  using assms
proof (induction ks rule: join_commas.induct)
  case 1
  then show ?case by simp
next
  case (2 k)
  then show ?case by (simp add: listed_commafree)
next
  case (3 k k' ks)
  then have "join_commas (k' # ks) \<noteq> []"
    using join_commas_Nil_iff [of "k' # ks"] by (auto simp: list_all_iff)
  with 3 show ?case by (simp add: listed_append_comma listed_commafree)
qed

lemma permitted_not_comma: "\<not> permitted (CHR '','')"
  by (simp add: permitted_def)

lemma is_name_commafree: "is_name mx n \<Longrightarrow> CHR '','' \<notin> set n"
  using permitted_not_comma by (auto simp: is_name_def list_all_iff)

lemma named_get: "named mx t \<Longrightarrow> get_node t a = Some n \<Longrightarrow> named mx n"
proof (induction a arbitrary: t)
  case Nil
  then show ?case by simp
next
  case (Cons c a)
  then obtain ch where ch: "map_of (tmap t) c = Some ch" and g: "get_node ch a = Some n"
    by (auto split: option.splits)
  from ch have "(c, ch) \<in> set (tmap t)" by (rule map_of_SomeD)
  with Cons.prems(1) have "named mx ch" by (cases t) auto
  from Cons.IH [OF this g] show ?case .
qed

lemma named_keys: "named mx n \<Longrightarrow> k \<in> fst ` set (tmap n) \<Longrightarrow> is_name mx k"
  by (cases n) auto

lemma set_map_entry:
  "x \<in> set (AList.map_entry k f m) \<Longrightarrow> x \<in> set m \<or> (\<exists>v. (k, v) \<in> set m \<and> x = (k, f v))"
  by (induction m) (auto split: if_splits)

lemma idle_upd_node:
  assumes "idle t" and "\<And>n. idle n \<Longrightarrow> idle (f n)"
  shows "idle (upd_node f a t)"
  using assms(1)
proof (induction a arbitrary: t)
  case Nil
  then show ?case by (simp add: assms(2))
next
  case (Cons c a)
  from Cons.prems have s: "tsync t = sync_new" and ch: "\<forall>x \<in> set (tmap t). idle (snd x)"
    by (cases t, simp)+
  have "idle (snd x)" if "x \<in> set (AList.map_entry c (upd_node f a) (tmap t))" for x
    using set_map_entry [OF that] ch Cons.IH by auto
  with s show ?case by simp
qed

lemma set_update_subset: "set (AList.update k v m) \<subseteq> insert (k, v) (set m)"
  by (induction m) auto

lemma idle_tree_new [simp]: "idle tree_new"
  by (simp add: tree_new_def)

lemma idle_insert:
  "idle v \<Longrightarrow> idle n \<Longrightarrow> idle (map_tmap (\<lambda>m. hmap_insert m k v) n)"
  using set_update_subset [of k v "tmap n"]
  by (cases n) (auto simp: map_tmap_def hmap_insert_def)

lemma idle_remove: "idle n \<Longrightarrow> idle (map_tmap (\<lambda>m. hmap_remove m k) n)"
  by (cases n) (auto simp: map_tmap_def hmap_remove_def AList.delete_eq)

lemma valid_root [simp]: "is_path_valid mx ''/''"
  by (simp add: is_path_valid_def path_components_def)

lemma errno_distinct [simp]:
  "ENOENT \<noteq> 0" "EEXIST \<noteq> 0" "EBUSY \<noteq> 0" "EINVAL \<noteq> 0" "ENOTEMPTY \<noteq> 0"
  "EBUSY \<noteq> EEXIST" "EBUSY \<noteq> - 1" "EBUSY \<noteq> ENOTEMPTY" "ENOENT \<noteq> EEXIST" "EINVAL \<noteq> EBUSY"
  by (simp_all add: ENOENT_def EEXIST_def EBUSY_def EINVAL_def ENOTEMPTY_def)

lemma not_root_render_Cons: "\<not> is_root (render (n # ns))"
  by (simp add: is_root_def render_def)

lemma valid_render:
  assumes "is_path_valid mx p"
  shows "p = render (path_components p)" and "list_all (is_name mx) (path_components p)"
    and "list_all slashfree (path_components p)"
  using is_path_valid_renderE [OF assms] names_slashfree [of mx "path_components p"] by simp_all

lemma idle_tree_a_b [simp]: "idle tree_a_b"
  by (simp add: tree_a_b_def tree_new_def)

lemma valid_examples [simp]:
  "is_path_valid 255 ''/a/''" "is_path_valid 255 ''/a/b/''" "is_path_valid 255 ''/c/''"
  "is_path_valid 255 ''/c/d/''" "is_path_valid 255 ''/a/c/''"
  by (simp_all add: is_path_valid_def path_components_def is_name_def permitted_def)

lemma valid_nonroot_parts:
  assumes "is_path_valid mx p" and "p \<noteq> ''/''"
  obtains ns n where "p = render (ns @ [n])" and "list_all (is_name mx) (ns @ [n])"
    and "path_components p = ns @ [n]" and "make_path_to_parent p = Some (render ns, n)"
proof -
  from assms obtain ns n where p: "p = render (ns @ [n])"
    and l: "list_all (is_name mx) (ns @ [n])"
    by (auto elim: valid_nonroot_render simp: is_root_def)
  from l have "path_components p = ns @ [n]"
    unfolding p by (intro path_components_render names_slashfree)
  moreover from l have "make_path_to_parent p = Some (render ns, n)"
    unfolding p using names_slashfree [OF l] by (intro make_path_to_parent_render) simp
  ultimately show ?thesis using p l that by blast
qed

lemma tree_create_success:
  assumes "idle t" and "list_all (is_name mx) (ns @ [n])"
    and "tree_create mx (t, lg) (render (ns @ [n])) = Some ((t', lg'), 0)"
  shows "get_node t ns \<noteq> None \<and> get_node t (ns @ [n]) = None \<and>
     t' = upd_node (map_tmap (\<lambda>m. hmap_insert m n tree_new)) ns t"
proof (cases "get_node t ns = None")
  case True
  from tree_create_missing [OF assms(1,2) True, of lg] assms(3) show ?thesis by auto
next
  case False
  show ?thesis
  proof (cases "get_node t (ns @ [n]) = None")
    case True
    from tree_create_new [OF assms(1,2) False True, of lg] assms(3) False True
    show ?thesis by auto
  next
    case False
    from tree_create_exists [OF assms(1,2) False, of lg] assms(3) show ?thesis by auto
  qed
qed

lemma tree_remove_success:
  assumes "idle t" and "list_all (is_name mx) (ns @ [n])"
    and "tree_remove mx (t, lg) (render (ns @ [n])) = Some ((t', lg'), 0)"
  shows "get_node t ns \<noteq> None \<and> t' = upd_node (map_tmap (\<lambda>m. hmap_remove m n)) ns t"
proof (cases "get_node t (ns @ [n])")
  case None
  from tree_remove_missing [OF assms(1,2) None, of lg] assms(3) show ?thesis by auto
next
  case (Some son)
  then have p: "get_node t ns \<noteq> None" using get_node_prefix [of t ns "[n]"] by simp
  show ?thesis
  proof (cases "tmap son = []")
    case True
    from tree_remove_empty [OF assms(1,2) Some True, of lg] assms(3) p show ?thesis by auto
  next
    case False
    from tree_remove_nonempty [OF assms(1,2) Some False, of lg] assms(3) show ?thesis by auto
  qed
qed

lemma tree_create_a: "tree_create 255 (tree_new, []) ''/a/'' =
    Some ((Tree [(''a'', tree_new)] sync_new, [Writer_entry [], Writer_exit []]), 0)"
  by code_simp

lemma tree_remove_a: "tree_remove 255 (Tree [(''a'', tree_new)] sync_new, []) ''/a/'' =
    Some ((tree_new, [Writer_entry [], Writer_exit []]), 0)"
  by code_simp

section \<open>\<open>tree_move\<close> on an idle tree\<close>

lemma move_dfs_False: "move_dfs a path k False st = find_node_loop a path k st"
proof (induction "length path" arbitrary: a path k st rule: less_induct)
  case less
  have ih: "move_dfs a' sub k' False st' = find_node_loop a' sub k' st'"
    if "split_path path = Some (c, sub)" for a' sub k' st' c
    using less [OF split_path_shorter [OF that]] .
  show ?case
    by (subst move_dfs.simps, subst find_node_loop.simps)
      (auto split: option.splits simp: ih)
qed

lemma move_dfs_lca_end: "move_dfs a (render []) k True st = Some (st, Inr a)"
  by (subst move_dfs.simps) (simp add: split_path_render_Nil)

lemma move_dfs_lca_step:
  assumes "slashfree c" and "get_node t a \<noteq> None" and "get_node t (a @ [c]) \<noteq> None"
  shows "move_dfs a (render (c # cs)) k True (t, lg) =
     (case entry_on (size_sub k 1) (a @ [c]) (t, lg) of
        None \<Rightarrow> None
      | Some st1 \<Rightarrow> find_node_loop (a @ [c]) (render cs) (size_sub k 1) st1)"
proof -
  from assms(3) obtain son where s: "get_node t (a @ [c]) = Some son" by auto
  show ?thesis
    by (subst move_dfs.simps)
      (simp add: split_path_render_Cons [OF assms(1)] child_case_Some [OF assms(2) s]
        move_dfs_False cong: option.case_cong)
qed

lemma move_dfs_lca_missing:
  assumes "slashfree c" and "get_node t a \<noteq> None" and "get_node t (a @ [c]) = None"
  shows "move_dfs a (render (c # cs)) k True (t, lg) = Some ((t, lg), Inl ENOENT)"
  by (subst move_dfs.simps)
    (simp add: split_path_render_Cons [OF assms(1)] child_case_None [OF assms(2,3)])

lemma move_lca_loop_zero: "move_lca_loop a source target 0 st = Some (st, Inr (a, source, target))"
  by (subst move_lca_loop.simps) simp

lemma move_lca_loop_eq:
  assumes "list_all slashfree cm"
  shows "move_lca_loop a (render (cm @ xs)) (render (cm @ ys)) (length cm) st =
     (case find_node_loop a (render cm) (length cm) st of
        None \<Rightarrow> None
      | Some (st1, Inl err) \<Rightarrow> Some (st1, Inl err)
      | Some (st1, Inr p) \<Rightarrow> Some (st1, Inr (p, render xs, render ys)))"
  using assms
proof (induction cm arbitrary: a st)
  case Nil
  then show ?case by (simp add: move_lca_loop_zero find_node_loop_end)
next
  case (Cons c cm)
  then have sc: "slashfree c" and scm: "list_all slashfree cm" by simp_all
  note ih = Cons.IH [OF scm]
  show ?case
    by (subst move_lca_loop.simps, subst find_node_loop.simps)
      (simp add: split_path_render_Cons [OF sc] ih split: option.splits)
qed


lemma branch_ok:
  assumes "list_all slashfree cs" and "cs \<noteq> []" and "get_node tw a \<noteq> None"
    and "\<forall>q. q \<noteq> [] \<and> prefix q cs \<longrightarrow> map_option tsync (get_node tw (a @ q)) = Some sync_new"
  shows "\<exists>lg'. move_dfs a (render cs) (length cs) True (tw, lg) =
     Some ((set_sync sW (a @ cs) tw, lg'), Inr (a @ cs))"
proof -
  from assms(2) obtain c cs' where cs: "cs = c # cs'" by (cases cs) auto
  from assms(1) cs have sc: "slashfree c" and scs: "list_all slashfree cs'" by simp_all
  from assms(4) cs have ic: "map_option tsync (get_node tw (a @ [c])) = Some sync_new"
    by (auto dest: spec [of _ "[c]"])
  then have ch: "get_node tw (a @ [c]) \<noteq> None" by auto
  note step = move_dfs_lca_step [OF sc assms(3) ch, of cs' "length (c # cs')" lg]
  show ?thesis
  proof (cases "cs' = []")
    case True
    then show ?thesis unfolding cs
      by (subst step) (simp add: entry_on_def writer_entry_on_new [OF ic] find_node_loop_end)
  next
    case False
    have "\<forall>q. prefix q cs' \<longrightarrow> map_option tsync (get_node tw ((a @ [c]) @ q)) = Some sync_new"
      using assms(4) cs by (auto dest: spec [of _ "c # q" for q])
    from find_node_loop_ok [OF scs False this, of "lg @ [Reader_entry (a @ [c])]"] False
    show ?thesis unfolding cs
      by (subst step) (simp add: entry_on_def reader_entry_on_new [OF ic])
  qed
qed

lemma branch_fail_below:
  assumes "list_all slashfree (c # pre @ [d])" and "get_node tw a \<noteq> None"
    and "\<forall>q. prefix q pre \<longrightarrow> map_option tsync (get_node tw (a @ c # q)) = Some sync_new"
    and "get_node tw (a @ c # pre @ [d]) = None"
  shows "move_dfs a (render (c # pre @ d # rest)) (length (c # pre @ d # rest)) True (tw, lg) =
     Some ((tw, lg @ Reader_entry (a @ [c]) #
                 descent (Suc (length pre + length rest)) (a @ [c]) pre @
                 [Reader_exit (a @ c # pre)]), Inl ENOENT)"
proof -
  from assms(1) have sc: "slashfree c" and sp: "list_all slashfree (pre @ [d])" by simp_all
  from assms(3) have ic: "map_option tsync (get_node tw (a @ [c])) = Some sync_new"
    by (auto dest: spec [of _ "[]"])
  then have ch: "get_node tw (a @ [c]) \<noteq> None" by auto
  have ip: "\<forall>q. prefix q pre \<longrightarrow> map_option tsync (get_node tw ((a @ [c]) @ q)) = Some sync_new"
    using assms(3) by simp
  from assms(4) have m: "get_node tw ((a @ [c]) @ pre @ [d]) = None" by simp
  from find_node_loop_fail [OF sp ip m, of rest "length rest" "lg @ [Reader_entry (a @ [c])]"]
  show ?thesis
    by (subst move_dfs_lca_step [OF sc assms(2) ch])
      (simp add: entry_on_def reader_entry_on_new [OF ic])
qed

lemma lca_loop_ok:
  assumes "idle t" and "list_all slashfree cm" and "get_node t cm \<noteq> None"
  shows "\<exists>lg'. (case entry_on (length cm) [] (t, lg) of
              None \<Rightarrow> None
            | Some st1 \<Rightarrow> move_lca_loop [] (render (cm @ xs)) (render (cm @ ys)) (length cm) st1) =
     Some ((set_sync sW cm t, lg'), Inr (cm, render xs, render ys))"
proof -
  from find_node_ok [OF assms(1,2), of "[]" lg] assms(3)
  show ?thesis by (auto simp: find_node_def move_lca_loop_eq [OF assms(2)] split: option.splits)
qed

lemma lca_loop_fail:
  assumes "idle t" and "list_all slashfree cm" and "cm = pre @ c # rest"
    and "get_node t pre \<noteq> None" and "get_node t (pre @ [c]) = None"
  shows "(case entry_on (length cm) [] (t, lg) of
              None \<Rightarrow> None
            | Some st1 \<Rightarrow> move_lca_loop [] (render (cm @ xs)) (render (cm @ ys)) (length cm) st1) =
     Some ((t, lg @ Reader_entry [] # descent (length cm) [] pre @ [Reader_exit pre]), Inl ENOENT)"
proof -
  from assms(2,3) have sp: "list_all slashfree (pre @ [c])" by simp
  from find_node_fail [OF assms(1) sp, of "[]" rest lg] assms(3,4,5)
  have f: "find_node [] (render cm) (length cm) (t, lg) =
     Some ((t, lg @ Reader_entry [] # descent (length cm) [] pre @ [Reader_exit pre]), Inl ENOENT)"
    by simp
  show ?thesis using f
    by (auto simp: find_node_def move_lca_loop_eq [OF assms(2)] split: option.splits)
qed

lemma lcp_decomp:
  obtains xs' ys' where "xs = longest_common_prefix xs ys @ xs'"
    and "ys = longest_common_prefix xs ys @ ys'"
    and "xs' = [] \<or> ys' = [] \<or> hd xs' \<noteq> hd ys'"
proof -
  have "\<exists>xs' ys'. xs = longest_common_prefix xs ys @ xs' \<and>
      ys = longest_common_prefix xs ys @ ys' \<and> (xs' = [] \<or> ys' = [] \<or> hd xs' \<noteq> hd ys')"
    by (induction xs ys rule: longest_common_prefix.induct) auto
  then show ?thesis using that by blast
qed

lemma tree_move_unfold:
  assumes "list_all (is_name mx) (S @ [sn])" and "list_all (is_name mx) (T @ [tn])"
    and "\<not> strict_prefix (S @ [sn]) (T @ [tn])"
    and "S = cm @ S'" and "T = cm @ T'" and "cm = longest_common_prefix S T"
  shows "tree_move mx st (render (S @ [sn])) (render (T @ [tn])) =
     (case entry_on (length cm) [] st of
        None \<Rightarrow> None
      | Some st1 \<Rightarrow>
          (case move_lca_loop [] (render (cm @ S')) (render (cm @ T')) (length cm) st1 of
             None \<Rightarrow> None
           | Some (st2, Inl err) \<Rightarrow> Some (st2, err)
           | Some (st2, Inr (lca, source1, target1)) \<Rightarrow>
               target_dfs lca target1 tn source1 sn (length T') (length S') st2))"
proof -
  note sfS = names_slashfree [OF assms(1)] and sfT = names_slashfree [OF assms(2)]
  then have sf: "list_all slashfree S" "list_all slashfree T" "slashfree sn" "slashfree tn"
    by simp_all
  have v: "is_path_valid mx (render (S @ [sn]))" "is_path_valid mx (render (T @ [tn]))"
    using assms(1,2) by (simp_all add: is_path_valid_render)
  have a: "\<not> (length (render (S @ [sn])) < length (render (T @ [tn])) \<and>
      take (length (render (S @ [sn]))) (render (S @ [sn])) =
      take (length (render (S @ [sn]))) (render (T @ [tn])))"
    using ancestor_test_render [OF sfS sfT] assms(3) by simp
  have c: "size_sub (common_files (render S) (render T)) (Suc 0) = length cm"
    by (simp add: common_files_render sf assms(6) size_sub_def)
  have "count_slashes (render S) = length S + 1" "count_slashes (render T) = length T + 1"
    by (simp_all add: count_slashes_render sf)
  then have ls: "size_sub (size_sub (count_slashes (render S)) (Suc 0)) (length cm) = length S'"
    and lt: "size_sub (size_sub (count_slashes (render T)) (Suc 0)) (length cm) = length T'"
    using assms(4,5) by (simp_all add: size_sub_def)
  have "tree_move mx st (render (S @ [sn])) (render (T @ [tn])) =
     (case entry_on (length cm) [] st of
        None \<Rightarrow> None
      | Some st1 \<Rightarrow>
          (case move_lca_loop [] (render S) (render T) (length cm) st1 of
             None \<Rightarrow> None
           | Some (st2, Inl err) \<Rightarrow> Some (st2, err)
           | Some (st2, Inr (lca, source1, target1)) \<Rightarrow>
               target_dfs lca target1 tn source1 sn (length T') (length S') st2))"
    using a
    by (auto simp: tree_move_def v not_root_render_snoc make_path_to_parent_render sf c ls lt
        Let_def cong: option.case_cong sum.case_cong)
  then show ?thesis unfolding assms(4,5) .
qed

lemma map_entry_delete:
  "c \<noteq> k \<Longrightarrow> AList.map_entry c g (AList.delete k m) = AList.delete k (AList.map_entry c g m)"
  by (induction m) auto

lemma map_entry_update:
  "c \<noteq> k \<Longrightarrow> AList.map_entry c g (AList.update k v m) = AList.update k v (AList.map_entry c g m)"
  by (induction m) auto

lemma map_of_update_other: "c \<noteq> k \<Longrightarrow> map_of (AList.update k v m) c = map_of m c"
  by (simp add: update_conv')

lemma keeps_map_tsync [simp]: "keeps c (map_tsync f)"
  by (simp add: keeps_def map_tsync_def map_tmap_def)

lemma keeps_remove [simp]: "c \<noteq> k \<Longrightarrow> keeps c (map_tmap (\<lambda>m. hmap_remove m k))"
  by (simp add: keeps_def map_tmap_def hmap_remove_def map_entry_delete)

lemma keeps_insert [simp]: "c \<noteq> k \<Longrightarrow> keeps c (map_tmap (\<lambda>m. hmap_insert m k v))"
  by (simp add: keeps_def map_tmap_def hmap_insert_def map_entry_update map_of_update_other)

lemma keeps_comp [simp]: "keeps c F \<Longrightarrow> keeps c G \<Longrightarrow> keeps c (\<lambda>n. F (G n))"
  by (simp add: keeps_def)

lemma keeps_below_map_tsync [simp]: "keeps_below a b (map_tsync f)"
  by (simp add: keeps_below_def)

lemma keeps_below_comp [simp]:
  "keeps_below a b F \<Longrightarrow> keeps_below a b G \<Longrightarrow> keeps_below a b (\<lambda>n. F (G n))"
  by (simp add: keeps_below_def)

lemma upd_node_Cons_map_tmap:
  "upd_node G (c # q) n = map_tmap (AList.map_entry c (upd_node G q)) n"
  by (simp add: map_tmap_def)

lemma commute_below:
  assumes "keeps c F"
  shows "upd_node F a (upd_node G (a @ c # q) t) = upd_node G (a @ c # q) (upd_node F a t)"
proof (rule upd_commute_nested)
  fix n
  from assms show "F (upd_node G (c # q) n) = upd_node G (c # q) (F n)"
    unfolding upd_node_Cons_map_tmap by (simp add: keeps_def)
qed

lemma get_below:
  assumes "keeps c F"
  shows "get_node (upd_node F a t) (a @ c # q) = get_node t (a @ c # q)"
proof (cases "get_node t a")
  case None
  then show ?thesis by (simp add: upd_node_invalid)
next
  case (Some n)
  from assms have "map_of (tmap (F n)) c = map_of (tmap n) c" by (simp add: keeps_def)
  with Some show ?thesis by (simp add: get_node_append [of _ a] get_upd_same)
qed

lemma commute_ST:
  assumes "S \<noteq> T" and "keeps_below S T FS" and "keeps_below T S FT"
  shows "upd_node FS S (upd_node FT T x) = upd_node FT T (upd_node FS S x)"
proof (cases S T rule: address_cases)
  case same
  with assms(1) show ?thesis by simp
next
  case (below c q)
  with assms(2) have "keeps c FS" by (simp add: keeps_below_def)
  from commute_below [OF this] below show ?thesis by simp
next
  case (above c q)
  with assms(3) have "keeps c FT" by (simp add: keeps_below_def)
  from commute_below [OF this, of T FS q x] above show ?thesis by simp
next
  case (apart p c a' d b')
  then show ?thesis by (simp add: upd_commute_apart)
qed

lemma exists_other:
  assumes "S \<noteq> T" and "keeps_below T S FT"
  shows "get_node (upd_node FT T x) S = None \<longleftrightarrow> get_node x S = None"
proof (cases S T rule: address_cases)
  case same
  with assms(1) show ?thesis by simp
next
  case (below c q)
  then show ?thesis by (simp add: get_upd_above)
next
  case (above c q)
  with assms(2) have "keeps c FT" by (simp add: keeps_below_def)
  from get_below [OF this] above show ?thesis by simp
next
  case (apart p c a' d b')
  then show ?thesis using get_upd_parallel [of d c FT p b' x a'] by simp
qed

lemma get_upd_sync_other:
  assumes "\<not> prefix b a"
  shows "get_node (upd_node (map_tsync f) a t) b = get_node t b"
proof (cases a b rule: address_cases)
  case same
  with assms show ?thesis by simp
next
  case (below c q)
  then show ?thesis by (simp add: get_upd_sync_below)
next
  case (above c q)
  with assms show ?thesis by simp
next
  case (apart p c a' d b')
  then show ?thesis by (simp add: get_upd_parallel)
qed

lemma get_set_sync_other: "\<not> prefix b a \<Longrightarrow> get_node (set_sync s a t) b = get_node t b"
  by (simp add: set_sync_def get_upd_sync_other)

lemma bfs_clear_idle: "idle t \<Longrightarrow> bfs_clear t"
  by (induction t rule: idle.induct) auto

lemma when_on_simps [simp]: "when_on True f st = f st" "when_on False f st = Some st"
  by (simp_all add: when_on_def)

lemma sync_at_idle:
  "idle t \<Longrightarrow> get_node t a \<noteq> None \<Longrightarrow> map_option tsync (get_node t a) = Some sync_new"
  using idle_sync [of t a] by auto

lemma unlock_over_lock:
  "a \<noteq> b \<Longrightarrow> set_sync sync_new a (set_sync sW b t) = set_sync sW b (set_sync sync_new a t)"
  by (rule set_sync_commute)

lemma writer_exit_on_exists:
  "get_node t a \<noteq> None \<Longrightarrow>
   writer_exit_on a (t, lg) =
     Some (upd_node (map_tsync (\<lambda>s. fst (writer_exit_protocol s))) a t, lg @ [Writer_exit a])"
  by (auto simp: writer_exit_on_def)

lemma sync_at_set_sync_same:
  "get_node t a \<noteq> None \<Longrightarrow> map_option tsync (get_node (set_sync s a t) a) = Some s"
  by (auto simp: sync_at_set_sync)

lemma sync_at_set_sync_other:
  "a \<noteq> b \<Longrightarrow> map_option tsync (get_node (set_sync s a t) b) = map_option tsync (get_node t b)"
  by (simp add: sync_at_set_sync)

text \<open>Leaving the target parent and the lowest common ancestor.\<close>

lemma release_two:
  assumes "idle t" and "get_node t L \<noteq> None" and "get_node t T \<noteq> None" and "b \<longleftrightarrow> T \<noteq> L"
  shows "\<exists>lg'. (case when_on b (writer_exit_on T) (set_sync sW T (set_sync sW L t), lg) of
              None \<Rightarrow> None
            | Some st2 \<Rightarrow>
                (case writer_exit_on L st2 of
                   None \<Rightarrow> None
                 | Some st3 \<Rightarrow> Some (st3, e))) = Some ((t, lg'), e)"
proof -
  note iL = sync_at_idle [OF assms(1,2)] and iT = sync_at_idle [OF assms(1,3)]
  show ?thesis
  proof (cases "T = L")
    case True
    with assms(4) iL show ?thesis by (simp add: writer_exit_held)
  next
    case False
    have "map_option tsync (get_node (set_sync sW T (set_sync sW L t)) T) = Some sW"
      using assms(3) by (intro sync_at_set_sync_same) simp
    from writer_exit_on_sW [OF this]
    have "writer_exit_on T (set_sync sW T (set_sync sW L t), lg) =
        Some (set_sync sW L t, lg @ [Writer_exit T])"
      using False by (simp add: unlock_over_lock set_sync_id [OF iT])
    with False assms(4) iL show ?thesis by (simp add: writer_exit_held)
  qed
qed

text \<open>Leaving the source parent, the target parent and the lowest common ancestor.\<close>

lemma release_three:
  assumes "idle t" and "get_node t L \<noteq> None" and "get_node t T \<noteq> None"
    and "get_node t S \<noteq> None" and "S = T \<longrightarrow> S = L"
  shows "\<exists>lg'. (case when_on (S \<noteq> L) (writer_exit_on S)
                   (set_sync sW S (set_sync sW T (set_sync sW L t)), lg) of
              None \<Rightarrow> None
            | Some st2 \<Rightarrow>
                (case when_on (T \<noteq> L) (writer_exit_on T) st2 of
                   None \<Rightarrow> None
                 | Some st3 \<Rightarrow>
                     (case writer_exit_on L st3 of
                        None \<Rightarrow> None
                      | Some st4 \<Rightarrow> Some (st4, e)))) = Some ((t, lg'), e)"
proof (cases "S = L")
  case True
  have "set_sync sW L (set_sync sW T (set_sync sW L t)) = set_sync sW T (set_sync sW L t)"
    by (cases "T = L") (simp_all add: set_sync_commute [of L T])
  with True release_two [OF assms(1-3), where b = "T \<noteq> L" and lg = lg and e = e] show ?thesis by simp
next
  case False
  with assms(5) have st: "S \<noteq> T" by auto
  note iS = sync_at_idle [OF assms(1,4)]
  have "map_option tsync (get_node (set_sync sW S (set_sync sW T (set_sync sW L t))) S) = Some sW"
    using assms(4) by (intro sync_at_set_sync_same) simp
  from writer_exit_on_sW [OF this]
  have "writer_exit_on S (set_sync sW S (set_sync sW T (set_sync sW L t)), lg) =
      Some (set_sync sW T (set_sync sW L t), lg @ [Writer_exit S])"
    using False st by (simp add: unlock_over_lock set_sync_id [OF iS])
  with False release_two [OF assms(1-3), where b = "T \<noteq> L" and lg = "lg @ [Writer_exit S]" and e = e] show ?thesis
    by simp
qed

text \<open>
  Leaving the lowest common ancestor once the two parents are held, when it is neither
  of them.
\<close>

lemma release_lca:
  assumes "idle t" and "get_node t L \<noteq> None"
  shows "\<exists>lg'. when_on (L \<noteq> S \<and> L \<noteq> T) (writer_exit_on L)
             (set_sync sW S (set_sync sW T (set_sync sW L t)), lg) =
     Some (set_sync sW S (set_sync sW T t), lg')"
proof (cases "L \<noteq> S \<and> L \<noteq> T")
  case True
  note iL = sync_at_idle [OF assms]
  have "map_option tsync (get_node (set_sync sW L t) L) = Some sW"
    using assms(2) by (intro sync_at_set_sync_same)
  moreover from True have "S \<noteq> L" "T \<noteq> L" by auto
  ultimately
  have "map_option tsync (get_node (set_sync sW S (set_sync sW T (set_sync sW L t))) L) = Some sW"
    by (simp add: sync_at_set_sync_other)
  from writer_exit_on_sW [OF this] True show ?thesis
    by (simp add: unlock_over_lock set_sync_id [OF iL])
next
  case False
  have "set_sync sW S (set_sync sW T (set_sync sW L t)) = set_sync sW S (set_sync sW T t)"
  proof (cases "L = T")
    case True
    then show ?thesis by simp
  next
    case F: False
    with False have "L = S" by simp
    then show ?thesis using F by (simp add: set_sync_commute [of T S])
  qed
  with False show ?thesis by (auto simp: when_on_def)
qed

lemma splice_tree:
  assumes "S \<noteq> T"
    and kD: "keeps_below S T (map_tmap fd)" and kI: "keeps_below T S (map_tmap fi)"
    and nS: "get_node t S = Some nS" "tsync nS = sync_new"
    and nT: "get_node t T = Some nT" "tsync nT = sync_new"
  shows "upd_node (map_tsync (\<lambda>s. fst (writer_exit_protocol s))) T
           (upd_node (map_tsync (\<lambda>s. fst (writer_exit_protocol s))) S
             (upd_node (map_tmap fi) T
               (upd_node (map_tmap fd) S (set_sync sW S (set_sync sW T t))))) =
         upd_node (map_tmap fi) T (upd_node (map_tmap fd) S t)"
    (is "upd_node ?E T (upd_node ?E S (upd_node ?I T (upd_node ?D S _))) = _")
proof -
  let ?W = "map_tsync (\<lambda>_. sW)"
  note ts = assms(1) [symmetric]
  have 1: "set_sync sW S (set_sync sW T t) = upd_node ?W T (upd_node ?W S t)"
    unfolding set_sync_def by (rule commute_ST [OF assms(1)]) simp_all
  have 2: "upd_node ?D S (upd_node ?W T (upd_node ?W S t)) =
      upd_node ?W T (upd_node (\<lambda>n. ?D (?W n)) S t)"
    by (simp add: commute_ST [OF assms(1) kD] upd_upd_same)
  have kIW: "keeps_below T S (\<lambda>n. ?I (?W n))"
    by (rule keeps_below_comp [OF kI keeps_below_map_tsync])
  have kEIW: "keeps_below T S (\<lambda>n. ?E (?I (?W n)))"
    by (rule keeps_below_comp [OF keeps_below_map_tsync kIW])
  have 3: "upd_node ?E S (upd_node (\<lambda>n. ?I (?W n)) T (upd_node (\<lambda>n. ?D (?W n)) S t)) =
      upd_node (\<lambda>n. ?I (?W n)) T (upd_node (\<lambda>n. ?E (?D (?W n))) S t)"
    by (simp add: commute_ST [OF assms(1) keeps_below_map_tsync kIW] upd_upd_same)
  have 4: "upd_node (\<lambda>n. ?E (?D (?W n))) S t = upd_node ?D S t"
    by (rule upd_node_cong [OF nS(1)]) (simp add: map_tmap_def map_tsync_def nS(2))
  have 5: "upd_node (\<lambda>n. ?E (?I (?W n))) T t = upd_node ?I T t"
    by (rule upd_node_cong [OF nT(1)]) (simp add: map_tmap_def map_tsync_def nT(2))
  have "upd_node ?E T (upd_node ?E S (upd_node ?I T (upd_node ?D S
      (set_sync sW S (set_sync sW T t))))) =
      upd_node (\<lambda>n. ?E (?I (?W n))) T (upd_node ?D S t)"
    by (simp add: 1 2 upd_upd_same 3 4)
  also have "\<dots> = upd_node ?D S (upd_node (\<lambda>n. ?E (?I (?W n))) T t)"
    by (rule commute_ST [OF assms(1) kD kEIW, symmetric])
  also have "\<dots> = upd_node ?I T (upd_node ?D S t)"
    by (simp add: 5 commute_ST [OF assms(1) kD kI])
  finally show ?thesis .
qed

lemma missing_split_from:
  assumes "get_node t a \<noteq> None" and "get_node t (a @ cs) = None"
  shows "\<exists>pre c rest. cs = pre @ c # rest \<and> get_node t (a @ pre) \<noteq> None \<and>
     get_node t (a @ pre @ [c]) = None"
proof -
  from assms(1) obtain n where n: "get_node t a = Some n" by auto
  with assms(2) have "get_node n cs = None" by (simp add: get_node_append)
  from missing_split [OF this] n show ?thesis by (simp add: get_node_append)
qed

lemma branch_phase_ok:
  assumes "list_all slashfree B" and "map_option tsync (get_node tw a) = Some sW"
    and "\<forall>q. q \<noteq> [] \<and> prefix q B \<longrightarrow> map_option tsync (get_node tw (a @ q)) = Some sync_new"
  shows "\<exists>lg'. move_dfs a (render B) (length B) True (tw, lg) =
     Some ((set_sync sW (a @ B) tw, lg'), Inr (a @ B))"
proof (cases "B = []")
  case True
  with assms(2) show ?thesis by (simp add: move_dfs_lca_end set_sync_id)
next
  case False
  from assms(2) have "get_node tw a \<noteq> None" by auto
  from branch_ok [OF assms(1) False this assms(3)] show ?thesis .
qed

lemma branch_phase_missing:
  assumes "list_all slashfree B" and "get_node tw a \<noteq> None" and "get_node tw (a @ B) = None"
    and "\<forall>q. q \<noteq> [] \<and> prefix q B \<and> get_node tw (a @ q) \<noteq> None \<longrightarrow>
           map_option tsync (get_node tw (a @ q)) = Some sync_new"
  shows "\<exists>lg'. move_dfs a (render B) (length B) True (tw, lg) = Some ((tw, lg'), Inl ENOENT)"
proof -
  from missing_split_from [OF assms(2,3)] obtain pre c rest where
    B: "B = pre @ c # rest" and p: "get_node tw (a @ pre) \<noteq> None"
    and m: "get_node tw (a @ pre @ [c]) = None" by blast
  show ?thesis
  proof (cases pre)
    case Nil
    with assms(1) B have "slashfree c" by simp
    from move_dfs_lca_missing [OF this assms(2)] m Nil B show ?thesis by simp
  next
    case (Cons d pre')
    with assms(1) B have sf: "list_all slashfree (d # pre' @ [c])" by simp
    have "\<forall>q. prefix q pre' \<longrightarrow> map_option tsync (get_node tw (a @ d # q)) = Some sync_new"
    proof (intro allI impI)
      fix q
      assume q: "prefix q pre'"
      then obtain r where r: "pre' = q @ r" by (auto simp: prefix_def)
      with p Cons have "get_node tw ((a @ d # q) @ r) \<noteq> None" by simp
      then have "get_node tw (a @ d # q) \<noteq> None" by (rule get_node_prefix)
      moreover from q B Cons have "prefix (d # q) B" by (auto simp: prefix_def)
      ultimately show "map_option tsync (get_node tw (a @ d # q)) = Some sync_new"
        using assms(4) by blast
    qed
    from branch_fail_below [OF sf assms(2) this, where rest = rest and lg = lg] m Cons B show ?thesis by simp
  qed
qed

lemma splice:
  assumes "idle t" and "get_node t S \<noteq> None" and "get_node t T \<noteq> None"
    and "get_node t (T @ [tn]) = None" and "\<not> prefix (S @ [sn]) T"
  shows "\<exists>lg'. (case when_on (S \<noteq> T) (writer_exit_on S)
                   (insert_at T tn sub
                      (remove_at S sn (set_sync sW S (set_sync sW T t), lg))) of
              None \<Rightarrow> None
            | Some st6 \<Rightarrow>
                (case writer_exit_on T st6 of
                   None \<Rightarrow> None
                 | Some st7 \<Rightarrow> Some (st7, 0))) =
     Some ((upd_node (map_tmap (\<lambda>m. hmap_insert m tn sub)) T
              (upd_node (map_tmap (\<lambda>m. hmap_remove m sn)) S t), lg'), 0)"
    (is "\<exists>lg'. ?run = Some ((upd_node ?I T (upd_node ?D S t), lg'), 0)")
proof -
  from assms(2) obtain nS where nS: "get_node t S = Some nS" by auto
  from assms(3) obtain nT where nT: "get_node t T = Some nT" by auto
  note sS = idle_sync [OF assms(1) nS] and sT = idle_sync [OF assms(1) nT]
  let ?E = "map_tsync (\<lambda>s. fst (writer_exit_protocol s))"
  show ?thesis
  proof (cases "S = T")
    case True
    have "upd_node ?E T (upd_node ?I T (upd_node ?D T (set_sync sW T t))) =
        upd_node (\<lambda>n. ?I (?D n)) T t"
      unfolding set_sync_def upd_upd_same
      by (rule upd_node_cong [OF nT]) (simp add: map_tmap_def map_tsync_def sT)
    moreover have "get_node (upd_node ?I T (upd_node ?D T (set_sync sW T t))) T \<noteq> None"
      using nT by (simp add: get_upd_same set_sync_def)
    ultimately show ?thesis using True
      by (simp add: insert_at_def remove_at_def writer_exit_on_exists upd_upd_same)
  next
    case False
    have kD: "keeps_below S T ?D"
      unfolding keeps_below_def using assms(5) by (auto intro!: keeps_remove)
    have kI: "keeps_below T S ?I"
      unfolding keeps_below_def
    proof (intro allI impI)
      fix c q
      assume "S = T @ c # q"
      with assms(2) have "get_node t ((T @ [c]) @ q) \<noteq> None" by simp
      then have "get_node t (T @ [c]) \<noteq> None" by (rule get_node_prefix)
      with assms(4) have "c \<noteq> tn" by auto
      then show "keeps c ?I" by (rule keeps_insert)
    qed
    let ?X5 = "upd_node ?I T (upd_node ?D S (set_sync sW S (set_sync sW T t)))"
    have e5: "get_node ?X5 S \<noteq> None"
      using nS by (simp add: exists_other [OF False kI] get_upd_same)
    have e6: "get_node (upd_node ?E S ?X5) T \<noteq> None"
      using nT False
      by (simp add: exists_other [of T S] get_upd_same kD)
    from splice_tree [OF False kD kI nS sS nT sT] e5 e6 False show ?thesis
      by (simp add: insert_at_def remove_at_def writer_exit_on_exists)
  qed
qed

lemma get_node_missing_below: "get_node t a = None \<Longrightarrow> get_node t (a @ b) = None"
  by (simp add: get_node_append)

lemma source_dfs_outcome:
  assumes i: "idle t" and sf: "list_all slashfree S'"
    and S: "S = L @ S'" and T: "T = L @ T'"
    and d: "S' = [] \<or> T' = [] \<or> hd S' \<noteq> hd T'"
    and eT: "get_node t T \<noteq> None" and aT: "get_node t (T @ [tn]) = None"
    and na: "\<not> prefix (S @ [sn]) T"
  shows "\<exists>lg'. source_dfs L T (render S') sn tn (length S')
             (set_sync sW T (set_sync sW L t), lg) =
     Some ((fst (move_outcome t S sn T tn), lg'), snd (move_outcome t S sn T tn))"
proof -
  let ?tLT = "set_sync sW T (set_sync sW L t)"
  from eT have eL: "get_node t L \<noteq> None" unfolding T by (rule get_node_prefix)
  have sL: "map_option tsync (get_node ?tLT L) = Some sW"
    using eL by (cases "T = L") (simp_all add: sync_at_set_sync_other sync_at_set_sync_same)
  have br: "map_option tsync (get_node ?tLT (L @ q)) = Some sync_new"
    if "q \<noteq> []" "prefix q S'" "get_node t (L @ q) \<noteq> None" for q
  proof -
    from that(1,2) d have "q \<noteq> T'" by (cases q; cases S'; cases T') auto
    with that(1) have "T \<noteq> L @ q" "L \<noteq> L @ q" unfolding T by simp_all
    with sync_at_idle [OF i that(3)] show ?thesis by (simp add: sync_at_set_sync_other)
  qed
  have st: "S = T \<longrightarrow> S = L" unfolding S T using d by (cases S'; cases T') auto
  show ?thesis
  proof (cases "get_node t S")
    case None
    from get_node_missing_below [OF this, of "[sn]"]
    have "get_node t (S @ [sn]) = None" by simp
    then have o: "move_outcome t S sn T tn = (t, ENOENT)"
      using eT aT by (simp add: move_outcome_def)
    have "\<forall>q. q \<noteq> [] \<and> prefix q S' \<and> get_node ?tLT (L @ q) \<noteq> None \<longrightarrow>
        map_option tsync (get_node ?tLT (L @ q)) = Some sync_new"
      using br by simp
    from branch_phase_missing [OF sf _ _ this, where lg = lg] None eL obtain lg1 where
      "move_dfs L (render S') (length S') True (?tLT, lg) = Some ((?tLT, lg1), Inl ENOENT)"
      unfolding S by auto
    moreover have "L \<noteq> T \<longleftrightarrow> T \<noteq> L" by auto
    from release_two [OF i eL eT this, where lg = lg1 and e = ENOENT]
    obtain lg2 where "(case when_on (L \<noteq> T) (writer_exit_on T) (?tLT, lg1) of
              None \<Rightarrow> None
            | Some st2 \<Rightarrow>
                (case writer_exit_on L st2 of
                   None \<Rightarrow> None
                 | Some st3 \<Rightarrow> Some (st3, ENOENT))) = Some ((t, lg2), ENOENT)" by blast
    ultimately show ?thesis by (simp add: source_dfs_def o)
  next
    case (Some nS)
    then have eS: "get_node t S \<noteq> None" by simp
    have "\<forall>q. q \<noteq> [] \<and> prefix q S' \<longrightarrow>
        map_option tsync (get_node ?tLT (L @ q)) = Some sync_new"
    proof (intro allI impI)
      fix q
      assume q: "q \<noteq> [] \<and> prefix q S'"
      then obtain r where "S' = q @ r" by (auto simp: prefix_def)
      with eS have "get_node t ((L @ q) @ r) \<noteq> None" unfolding S by simp
      then have "get_node t (L @ q) \<noteq> None" by (rule get_node_prefix)
      with q br show "map_option tsync (get_node ?tLT (L @ q)) = Some sync_new" by simp
    qed
    from branch_phase_ok [OF sf sL this, where lg = lg] obtain lg1 where
      m: "move_dfs L (render S') (length S') True (?tLT, lg) =
        Some ((set_sync sW S ?tLT, lg1), Inr S)" unfolding S by auto
    let ?tLTS = "set_sync sW S ?tLT"
    have nL: "\<not> prefix (S @ [sn]) L" unfolding S by simp
    have g: "get_node ?tLTS (S @ [sn]) = get_node t (S @ [sn])"
      using na nL by (simp add: get_set_sync_other)
    have eS': "get_node ?tLTS S \<noteq> None" using eS by simp
    show ?thesis
    proof (cases "get_node t (S @ [sn])")
      case None
      then have o: "move_outcome t S sn T tn = (t, ENOENT)"
        using eT aT by (simp add: move_outcome_def)
      from None g have g': "get_node ?tLTS (S @ [sn]) = None" by simp
      from release_three [OF i eL eT eS st, where lg = lg1 and e = ENOENT] obtain lg2 where
        "(case when_on (S \<noteq> L) (writer_exit_on S) (?tLTS, lg1) of
              None \<Rightarrow> None
            | Some st2 \<Rightarrow>
                (case when_on (T \<noteq> L) (writer_exit_on T) st2 of
                   None \<Rightarrow> None
                 | Some st3 \<Rightarrow>
                     (case writer_exit_on L st3 of
                        None \<Rightarrow> None
                      | Some st4 \<Rightarrow> Some (st4, ENOENT)))) = Some ((t, lg2), ENOENT)" by blast
      then show ?thesis
        by (simp add: source_dfs_def m child_case_None [OF eS' g'] o)
    next
      case (Some sub)
      then have o: "move_outcome t S sn T tn =
          (upd_node (map_tmap (\<lambda>m. hmap_insert m tn sub)) T
             (upd_node (map_tmap (\<lambda>m. hmap_remove m sn)) S t), 0)"
        using eT aT by (simp add: move_outcome_def)
      from Some g have g': "get_node ?tLTS (S @ [sn]) = Some sub" by simp
      let ?Y = "set_sync sW S (set_sync sW T t)"
      from release_lca [OF i eL, where S = S and T = T and lg = lg1] obtain lg2 where
        r: "when_on (L \<noteq> S \<and> L \<noteq> T) (writer_exit_on L) (?tLTS, lg1) = Some (?Y, lg2)"
        by blast
      have gY: "get_node ?Y (S @ [sn]) = Some sub"
        using na Some by (simp add: get_set_sync_other)
      from idle_get [OF i Some] have "bfs_clear sub" by (rule bfs_clear_idle)
      with gY have b: "bfs_clear_on (S @ [sn]) (?Y, lg2) = Some (?Y, lg2)"
        by (simp add: bfs_clear_on_def)
      from splice [OF i eS eT aT na, where sub = sub and lg = lg2] obtain lg3 where
        run: "(case when_on (S \<noteq> T) (writer_exit_on S)
                   (insert_at T tn sub (remove_at S sn (?Y, lg2))) of
              None \<Rightarrow> None
            | Some st6 \<Rightarrow>
                (case writer_exit_on T st6 of
                   None \<Rightarrow> None
                 | Some st7 \<Rightarrow> Some (st7, 0 :: int))) =
         Some ((upd_node (map_tmap (\<lambda>m. hmap_insert m tn sub)) T
              (upd_node (map_tmap (\<lambda>m. hmap_remove m sn)) S t), lg3), 0)" by blast
      have gY': "get_node (set_sync sW T t) (S @ [sn]) = Some sub"
        using na Some by (simp add: get_set_sync_other)
      show ?thesis
        by (rule exI [of _ lg3],
            simp add: source_dfs_def m child_case_Some [OF eS' g'] r b o Let_def gY gY' run)
    qed
  qed
qed

lemma target_dfs_outcome:
  assumes i: "idle t" and sfS: "list_all slashfree S'" and sfT: "list_all slashfree T'"
    and S: "S = L @ S'" and T: "T = L @ T'"
    and d: "S' = [] \<or> T' = [] \<or> hd S' \<noteq> hd T'"
    and eL: "get_node t L \<noteq> None" and na: "\<not> prefix (S @ [sn]) T"
  shows "\<exists>lg'. target_dfs L (render T') tn (render S') sn (length T') (length S')
             (set_sync sW L t, lg) =
     Some ((fst (move_outcome t S sn T tn), lg'), snd (move_outcome t S sn T tn))"
proof -
  let ?tL = "set_sync sW L t"
  note sL = sync_at_set_sync_same [OF eL, of sW]
  have eL': "get_node ?tL L \<noteq> None" using eL by simp
  have br: "map_option tsync (get_node ?tL (L @ q)) = Some sync_new"
    if "q \<noteq> []" "get_node t (L @ q) \<noteq> None" for q
  proof -
    from that(1) have "L \<noteq> L @ q" by simp
    with sync_at_idle [OF i that(2)] show ?thesis by (simp add: sync_at_set_sync_other)
  qed
  show ?thesis
  proof (cases "get_node t T")
    case None
    then have o: "move_outcome t S sn T tn = (t, ENOENT)" by (simp add: move_outcome_def)
    have "\<forall>q. q \<noteq> [] \<and> prefix q T' \<and> get_node ?tL (L @ q) \<noteq> None \<longrightarrow>
        map_option tsync (get_node ?tL (L @ q)) = Some sync_new"
      using br by simp
    from branch_phase_missing [OF sfT eL' _ this, where lg = lg] None obtain lg1 where
      "move_dfs L (render T') (length T') True (?tL, lg) = Some ((?tL, lg1), Inl ENOENT)"
      unfolding T by auto
    then show ?thesis
      by (simp add: target_dfs_def o writer_exit_held [OF sync_at_idle [OF i eL]])
  next
    case (Some nT)
    then have eT: "get_node t T \<noteq> None" by simp
    have "\<forall>q. q \<noteq> [] \<and> prefix q T' \<longrightarrow>
        map_option tsync (get_node ?tL (L @ q)) = Some sync_new"
    proof (intro allI impI)
      fix q
      assume q: "q \<noteq> [] \<and> prefix q T'"
      then obtain r where "T' = q @ r" by (auto simp: prefix_def)
      with eT have "get_node t ((L @ q) @ r) \<noteq> None" unfolding T by simp
      then have "get_node t (L @ q) \<noteq> None" by (rule get_node_prefix)
      with q br show "map_option tsync (get_node ?tL (L @ q)) = Some sync_new" by simp
    qed
    from branch_phase_ok [OF sfT sL this, where lg = lg] obtain lg1 where
      m: "move_dfs L (render T') (length T') True (?tL, lg) =
        Some ((set_sync sW T ?tL, lg1), Inr T)" unfolding T by auto
    let ?tLT = "set_sync sW T ?tL"
    have nL: "\<not> prefix (T @ [tn]) L" unfolding T by simp
    have g: "get_node ?tLT (T @ [tn]) = get_node t (T @ [tn])"
      using nL by (simp add: get_set_sync_other)
    have eT': "get_node ?tLT T \<noteq> None" using eT by simp
    show ?thesis
    proof (cases "get_node t (T @ [tn])")
      case None
      with g have g': "get_node ?tLT (T @ [tn]) = None" by simp
      from source_dfs_outcome [OF i sfS S T d eT None na, where lg = lg1] show ?thesis
        by (simp add: target_dfs_def m child_case_None [OF eT' g'])
    next
      case (Some x)
      with eT have o: "move_outcome t S sn T tn = (t, EEXIST)" by (simp add: move_outcome_def)
      from Some g have g': "get_node ?tLT (T @ [tn]) = Some x" by simp
      have "T \<noteq> L \<longleftrightarrow> T \<noteq> L" by simp
      from release_two [OF i eL eT this, where lg = lg1 and e = EEXIST]
      show ?thesis
        by (simp add: target_dfs_def m child_case_Some [OF eT' g'] o)
    qed
  qed
qed


lemma tree_move_result:
  assumes i: "idle t" and nS: "list_all (is_name mx) (S @ [sn])"
    and nT: "list_all (is_name mx) (T @ [tn])" and ns: "\<not> strict_prefix (S @ [sn]) (T @ [tn])"
  shows "\<exists>lg'. tree_move mx (t, lg) (render (S @ [sn])) (render (T @ [tn])) =
     Some ((fst (move_outcome t S sn T tn), lg'), snd (move_outcome t S sn T tn))"
proof -
  obtain S' T' where S: "S = longest_common_prefix S T @ S'"
    and T: "T = longest_common_prefix S T @ T'" and d: "S' = [] \<or> T' = [] \<or> hd S' \<noteq> hd T'"
    by (rule lcp_decomp)
  define L where "L = longest_common_prefix S T"
  note S = S [folded L_def] and T = T [folded L_def]
  note unf = tree_move_unfold [OF nS nT ns S T L_def, of "(t, lg)"]
  from names_slashfree [OF nS] names_slashfree [OF nT] S T
  have sf: "list_all slashfree L" "list_all slashfree S'" "list_all slashfree T'"
    by (metis list_all_append)+
  have na: "\<not> prefix (S @ [sn]) T"
  proof
    assume "prefix (S @ [sn]) T"
    then have "strict_prefix (S @ [sn]) (T @ [tn])"
      by (auto simp: prefix_def strict_prefix_def)
    with ns show False ..
  qed
  have unf': "tree_move mx (t, lg) (render (S @ [sn])) (render (T @ [tn])) =
        (case (case entry_on (length L) [] (t, lg) of
              None \<Rightarrow> None
            | Some st1 \<Rightarrow> move_lca_loop [] (render (L @ S')) (render (L @ T')) (length L) st1) of
           None \<Rightarrow> None
         | Some (st2, Inl err) \<Rightarrow> Some (st2, err)
         | Some (st2, Inr (lca, source1, target1)) \<Rightarrow>
             target_dfs lca target1 tn source1 sn (length T') (length S') st2)"
    unfolding unf by (simp split: option.splits)
  show ?thesis
  proof (cases "get_node t L")
    case None
    from get_node_missing_below [OF this, of T'] T have "get_node t T = None" by simp
    then have o: "move_outcome t S sn T tn = (t, ENOENT)" by (simp add: move_outcome_def)
    from missing_split [OF None] obtain pre c rest where
      L: "L = pre @ c # rest" and p: "get_node t pre \<noteq> None"
      and m: "get_node t (pre @ [c]) = None" by blast
    show ?thesis
      unfolding unf' lca_loop_fail [OF i sf(1) L p m, where lg = lg and xs = S' and ys = T']
      by (simp add: o)
  next
    case (Some nL)
    then have eL: "get_node t L \<noteq> None" by simp
    from lca_loop_ok [OF i sf(1) eL, where lg = lg and xs = S' and ys = T'] obtain lg1 where
      l: "(case entry_on (length L) [] (t, lg) of
              None \<Rightarrow> None
            | Some st1 \<Rightarrow> move_lca_loop [] (render (L @ S')) (render (L @ T')) (length L) st1) =
         Some ((set_sync sW L t, lg1), Inr (L, render S', render T'))" by blast
    from target_dfs_outcome [OF i sf(2,3) S T d eL na, where tn = tn and lg = lg1] obtain lg2 where
      r: "target_dfs L (render T') tn (render S') sn (length T') (length S')
             (set_sync sW L t, lg1) =
         Some ((fst (move_outcome t S sn T tn), lg2), snd (move_outcome t S sn T tn))" by blast
    have "tree_move mx (t, lg) (render (S @ [sn])) (render (T @ [tn])) =
        Some ((fst (move_outcome t S sn T tn), lg2), snd (move_outcome t S sn T tn))"
      unfolding unf' l by (simp add: r)
    then show ?thesis by blast
  qed
qed

lemma tree_move_ancestor:
  assumes "is_path_valid mx s" and "is_path_valid mx t" and "s \<noteq> ''/''"
    and "strict_prefix (path_components s) (path_components t)"
  shows "tree_move mx st s t = Some (st, - 1)"
proof -
  note s = valid_render [OF assms(1)] and t = valid_render [OF assms(2)]
  from assms(4) obtain n ns where "path_components t = n # ns"
    by (cases "path_components t") auto
  with t(1) have "\<not> is_root t" using not_root_render_Cons [of n ns] by simp
  moreover have "length s < length t \<and> take (length s) s = take (length s) t"
    using ancestor_test_render [OF s(3) t(3)] assms(4) s(1) t(1) by simp
  ultimately show ?thesis using assms(1-3) by (simp add: tree_move_def is_root_def)
qed

lemma moved_subtree:
  assumes "get_node t S \<noteq> None" and "get_node t T \<noteq> None" and "get_node t (T @ [tn]) = None"
    and "get_node t (S @ [sn]) = Some sub" and "\<not> prefix (S @ [sn]) T"
  shows "get_node (upd_node (map_tmap (\<lambda>m. hmap_insert m tn sub)) T
                (upd_node (map_tmap (\<lambda>m. hmap_remove m sn)) S t)) (T @ [tn]) = Some sub"
    and "get_node (upd_node (map_tmap (\<lambda>m. hmap_insert m tn sub)) T
                (upd_node (map_tmap (\<lambda>m. hmap_remove m sn)) S t)) (S @ [sn]) = None"
proof -
  let ?D = "map_tmap (\<lambda>m. hmap_remove m sn)" and ?I = "map_tmap (\<lambda>m. hmap_insert m tn sub)"
  let ?X = "upd_node ?D S t"
  have kD: "keeps_below S T ?D"
    unfolding keeps_below_def using assms(5) by (auto intro!: keeps_remove)
  have eX: "get_node ?X T \<noteq> None"
  proof (cases "S = T")
    case True
    with assms(2) show ?thesis by (simp add: get_upd_same)
  next
    case False
    then have "T \<noteq> S" by simp
    from exists_other [OF this kD] assms(2) show ?thesis by simp
  qed
  then obtain nX where nX: "get_node ?X T = Some nX" by auto
  then show "get_node (upd_node ?I T ?X) (T @ [tn]) = Some sub"
    by (simp add: get_node_append get_upd_same hmap_insert_def update_conv')
  from assms(1) obtain nS where nS: "get_node t S = Some nS" by auto
  have dX: "get_node ?X (S @ [sn]) = None"
    using nS by (simp add: get_node_append get_upd_same hmap_remove_def delete_conv')
  have ne: "S @ [sn] \<noteq> T @ [tn]" using assms(3,4) by auto
  show "get_node (upd_node ?I T ?X) (S @ [sn]) = None"
  proof (cases T "S @ [sn]" rule: address_cases)
    case same
    with assms(5) show ?thesis by simp
  next
    case (below c q)
    have "c \<noteq> tn"
    proof
      assume "c = tn"
      with below have "S @ [sn] = (T @ [tn]) @ q" by simp
      with get_node_missing_below [OF assms(3), of q] assms(4) show False by simp
    qed
    then have "keeps c ?I" by (rule keeps_insert)
    from get_below [OF this, of T ?X q] below dX show ?thesis by simp
  next
    case (above c q)
    with assms(5) show ?thesis by simp
  next
    case (apart p c a' d b')
    with dX get_upd_parallel [of c d ?I p a' ?X b'] show ?thesis by simp
  qed
qed

subsection \<open>A missing component: which node is released, and how\<close>

lemma descent_readers: "length cs < k \<Longrightarrow> \<not> list_ex writer_event (descent k a cs)"
  by (induction cs arbitrary: k a) auto

lemma find_node_release:
  assumes "idle t" and "list_all slashfree (pre @ [c])"
    and "get_node t pre \<noteq> None" and "get_node t (pre @ [c]) = None"
  shows "\<exists>ev. \<not> list_ex writer_event ev \<and>
     find_node [] (render (pre @ c # rest)) (length (pre @ c # rest)) (t, lg) =
       Some ((t, lg @ ev @ [Reader_exit pre]), Inl ENOENT)"
proof -
  let ?ev = "Reader_entry [] # descent (length (pre @ c # rest)) [] pre"
  have "\<not> list_ex writer_event ?ev" by (simp add: descent_readers)
  moreover from find_node_fail [OF assms(1,2), of "[]" rest lg] assms(3,4)
  have "find_node [] (render (pre @ c # rest)) (length (pre @ c # rest)) (t, lg) =
       Some ((t, lg @ ?ev @ [Reader_exit pre]), Inl ENOENT)" by simp
  ultimately show ?thesis by blast
qed

lemma shared_prefix_release:
  assumes i: "idle t" and nS: "list_all (is_name mx) (S @ [sn])"
    and nT: "list_all (is_name mx) (T @ [tn])" and ns: "\<not> strict_prefix (S @ [sn]) (T @ [tn])"
    and L: "longest_common_prefix S T = pre @ c # rest"
    and p: "get_node t pre \<noteq> None" and m: "get_node t (pre @ [c]) = None"
  shows "\<exists>ev. \<not> list_ex writer_event ev \<and>
     tree_move mx (t, lg) (render (S @ [sn])) (render (T @ [tn])) =
       Some ((t, lg @ ev @ [Reader_exit pre]), ENOENT)"
proof -
  obtain S' T' where S: "S = longest_common_prefix S T @ S'"
    and T: "T = longest_common_prefix S T @ T'"
    by (rule lcp_decomp)
  note unf = tree_move_unfold [OF nS nT ns S T refl, of "(t, lg)"]
  from names_slashfree [OF nS] S
  have sf: "list_all slashfree (longest_common_prefix S T)"
    by (metis list_all_append)
  let ?L = "longest_common_prefix S T"
  have unf': "tree_move mx (t, lg) (render (S @ [sn])) (render (T @ [tn])) =
        (case (case entry_on (length ?L) [] (t, lg) of
              None \<Rightarrow> None
            | Some st1 \<Rightarrow> move_lca_loop [] (render (?L @ S')) (render (?L @ T')) (length ?L) st1) of
           None \<Rightarrow> None
         | Some (st2, Inl err) \<Rightarrow> Some (st2, err)
         | Some (st2, Inr (lca, source1, target1)) \<Rightarrow>
             target_dfs lca target1 tn source1 sn (length T') (length S') st2)"
    unfolding unf by (simp split: option.splits)
  let ?ev = "Reader_entry [] # descent (length ?L) [] pre"
  have "\<not> list_ex writer_event ?ev" by (simp add: descent_readers L)
  moreover have "tree_move mx (t, lg) (render (S @ [sn])) (render (T @ [tn])) =
       Some ((t, lg @ ?ev @ [Reader_exit pre]), ENOENT)"
    unfolding unf' lca_loop_fail [OF i sf L p m, where lg = lg and xs = S' and ys = T']
    by simp
  ultimately show ?thesis by blast
qed

section \<open>Runs on a tree that other threads are using\<close>

text \<open>
  A call that returns from a tree in any state has changed counters only, on its way;
  what it returns and the calls it makes are fixed by the folders that exist.
\<close>

lemma map_map_entry:
  assumes "\<And>v. C (g v) = g' (C v)"
  shows "map (\<lambda>x. (fst x, C (snd x))) (AList.map_entry c g m) =
         AList.map_entry c g' (map (\<lambda>x. (fst x, C (snd x))) m)"
  by (induction m) (auto simp: assms)

lemma map_update:
  "map (\<lambda>x. (fst x, C (snd x))) (AList.update k v m) =
   AList.update k (C v) (map (\<lambda>x. (fst x, C (snd x))) m)"
  by (induction m) auto

lemma map_delete:
  "map (\<lambda>x. (fst x, C (snd x))) (AList.delete k m) =
   AList.delete k (map (\<lambda>x. (fst x, C (snd x))) m)"
  by (induction m) auto

lemma map_of_map_snd:
  "map_of (map (\<lambda>x. (fst x, C (snd x))) m) c = map_option C (map_of m c)"
  by (induction m) auto

lemma contents_upd_node:
  assumes "\<And>n. contents (F n) = G (contents n)"
  shows "contents (upd_node F a t) = upd_node G a (contents t)"
proof (induction a arbitrary: t)
  case Nil
  then show ?case by (simp add: assms)
next
  case (Cons c a)
  show ?case
    by (cases t)
      (simp add: map_map_entry [where C = contents and g = "upd_node F a" and g' = "upd_node G a",
            OF Cons.IH])
qed

lemma contents_map_tsync [simp]: "contents (map_tsync f n) = contents n"
  by (cases n) (simp add: map_tsync_def)

lemma contents_upd_sync [simp]: "contents (upd_node (map_tsync f) a t) = contents t"
proof -
  have "contents (upd_node (map_tsync f) a t) = upd_node (\<lambda>n. n) a (contents t)"
    by (rule contents_upd_node) simp
  also have "\<dots> = contents t"
  proof (cases "get_node (contents t) a")
    case None
    then show ?thesis by (simp add: upd_node_invalid)
  next
    case (Some n)
    then show ?thesis by (rule upd_node_id) simp
  qed
  finally show ?thesis .
qed

lemma contents_insert:
  "contents (upd_node (map_tmap (\<lambda>m. hmap_insert m k v)) a t) =
   upd_node (map_tmap (\<lambda>m. hmap_insert m k (contents v))) a (contents t)"
proof (rule contents_upd_node)
  fix n show "contents (map_tmap (\<lambda>m. hmap_insert m k v) n) =
      map_tmap (\<lambda>m. hmap_insert m k (contents v)) (contents n)"
    by (cases n) (simp add: map_tmap_def hmap_insert_def map_update)
qed

lemma contents_remove:
  "contents (upd_node (map_tmap (\<lambda>m. hmap_remove m k)) a t) =
   upd_node (map_tmap (\<lambda>m. hmap_remove m k)) a (contents t)"
proof (rule contents_upd_node)
  fix n show "contents (map_tmap (\<lambda>m. hmap_remove m k) n) =
      map_tmap (\<lambda>m. hmap_remove m k) (contents n)"
    by (cases n) (simp add: map_tmap_def hmap_remove_def map_delete)
qed

lemma get_node_contents: "get_node (contents t) b = map_option contents (get_node t b)"
proof (induction b arbitrary: t)
  case Nil
  then show ?case by simp
next
  case (Cons c b)
  show ?case
    by (cases t) (simp add: map_of_map_snd Cons.IH split: option.splits)
qed

lemma contents_exists:
  assumes "contents t' = contents t"
  shows "get_node t' b = None \<longleftrightarrow> get_node t b = None"
  using get_node_contents [of t' b] get_node_contents [of t b] assms by auto

lemma contents_idle: "idle t \<Longrightarrow> contents t = t"
proof (induction t rule: contents.induct)
  case (1 m s)
  have "map (\<lambda>x. (fst x, contents (snd x))) m = map (\<lambda>x. x) m"
    by (rule map_cong) (use 1 in auto)
  with 1 show ?case by simp
qed

lemma resync_refl [simp]: "resync A t t"
  by (simp add: resync_def)

lemma resync_trans: "resync A t t1 \<Longrightarrow> resync A t1 t2 \<Longrightarrow> resync A t t2"
  by (simp add: resync_def)

lemma resync_mono:
  assumes "resync A t t'" and "\<And>p. p \<in> A \<Longrightarrow> \<exists>p' \<in> B. prefix p p'"
  shows "resync B t t'"
  unfolding resync_def
proof (intro conjI allI impI)
  show "contents t' = contents t" using assms(1) by (simp add: resync_def)
  fix b assume b: "\<forall>p \<in> B. \<not> prefix b p"
  have "\<forall>p \<in> A. \<not> prefix b p"
  proof
    fix p assume "p \<in> A"
    from assms(2) [OF this] obtain p' where "p' \<in> B" "prefix p p'" by blast
    with b show "\<not> prefix b p" using prefix_order.trans by blast
  qed
  with assms(1) show "get_node t' b = get_node t b" by (simp add: resync_def)
qed

lemma resync_upd: "resync {a} t (upd_node (map_tsync f) a t)"
  by (simp add: resync_def get_upd_sync_other)

lemma resync_contents: "resync A t t' \<Longrightarrow> contents t' = contents t"
  by (simp add: resync_def)

lemma resync_exists: "resync A t t' \<Longrightarrow> get_node t' b = None \<longleftrightarrow> get_node t b = None"
  by (rule contents_exists) (rule resync_contents)

lemma resync_get: "resync A t t' \<Longrightarrow> \<forall>p \<in> A. \<not> prefix b p \<Longrightarrow> get_node t' b = get_node t b"
  by (simp add: resync_def)

lemma entry_on_run:
  assumes "entry_on k a (t, lg) = Some (t1, lg1)"
  shows "resync {a} t t1" and "lg1 = lg @ [if k = 0 then Writer_entry a else Reader_entry a]"
  using assms
  by (auto simp: entry_on_def writer_entry_on_def reader_entry_on_def resync_upd
      split: if_splits option.splits)

lemma reader_exit_on_run:
  assumes "reader_exit_on a (t, lg) = Some (t1, lg1)"
  shows "resync {a} t t1" and "lg1 = lg @ [Reader_exit a]"
  using assms by (auto simp: reader_exit_on_def resync_upd split: option.splits)

lemma writer_exit_on_run:
  assumes "writer_exit_on a (t, lg) = Some (t1, lg1)"
  shows "resync {a} t t1" and "lg1 = lg @ [Writer_exit a]"
  using assms by (auto simp: writer_exit_on_def resync_upd split: option.splits)

lemma reader_exit_on_returns:
  "get_node t a \<noteq> None \<Longrightarrow> \<exists>t1. reader_exit_on a (t, lg) = Some (t1, lg @ [Reader_exit a])"
  by (auto simp: reader_exit_on_def)

lemma writer_exit_on_returns:
  "get_node t a \<noteq> None \<Longrightarrow> \<exists>t1. writer_exit_on a (t, lg) = Some (t1, lg @ [Writer_exit a])"
  by (auto simp: writer_exit_on_def)

lemma resync_below:
  assumes "resync {a} t t'" shows "resync {a @ b} t t'"
  using assms by (rule resync_mono) simp

lemma find_node_loop_run:
  assumes "find_node_loop a (render cs) k (t, lg) = Some ((t', lg'), r)"
    and "list_all slashfree cs" and "get_node t a \<noteq> None" and "length cs \<le> k"
  shows "resync {a @ cs} t t' \<and>
     (get_node t (a @ cs) \<noteq> None \<longrightarrow> r = Inr (a @ cs) \<and> lg' = lg @ descent k a cs) \<and>
     (\<forall>pre c rest. cs = pre @ c # rest \<and> get_node t (a @ pre) \<noteq> None \<and>
          get_node t (a @ pre @ [c]) = None \<longrightarrow>
        r = Inl ENOENT \<and> lg' = lg @ descent k a pre @ [Reader_exit (a @ pre)])"
  using assms
proof (induction cs arbitrary: a t lg k)
  case Nil
  then show ?case by (simp add: find_node_loop_end)
next
  case (Cons c cs)
  from Cons.prems(2) have sc: "slashfree c" and scs: "list_all slashfree cs" by simp_all
  from Cons.prems(4) obtain k' where k: "k = Suc k'" and k': "length cs \<le> k'"
    by (cases k) auto
  show ?case
  proof (cases "get_node t (a @ [c])")
    case None
    from Cons.prems(1) find_node_loop_missing [OF sc Cons.prems(3) None, of cs k lg]
    have x: "reader_exit_on a (t, lg) = Some (t', lg')" and r: "r = Inl ENOENT"
      by (auto split: option.splits)
    note y = reader_exit_on_run [OF x]
    have m: "get_node t (a @ c # cs) = None"
      using get_node_missing_below [OF None, of cs] by simp
    have p: "pre = []" if "c # cs = pre @ d # rest" and "get_node t (a @ pre) \<noteq> None" for pre d rest
    proof (rule ccontr)
      assume "pre \<noteq> []"
      with that(1) obtain pre' where "pre = c # pre'" by (cases pre) auto
      with that(2) get_node_missing_below [OF None, of pre'] show False by simp
    qed
    have c1: "resync {a @ c # cs} t t'" using resync_below [OF y(1), of "c # cs"] by simp
    have c3: "r = Inl ENOENT \<and> lg' = lg @ descent k a pre @ [Reader_exit (a @ pre)]"
      if h: "c # cs = pre @ d # rest" "get_node t (a @ pre) \<noteq> None" for pre d rest
      using p [OF h] r y(2) by simp
    from c1 m c3 show ?thesis by blast
  next
    case (Some son)
    then have e: "get_node t (a @ [c]) \<noteq> None" by simp
    from Cons.prems(1) find_node_loop_step [OF sc Cons.prems(3) e, of cs k lg]
    obtain t1 lg1 t2 lg2 where x1: "entry_on k' (a @ [c]) (t, lg) = Some (t1, lg1)"
      and x2: "reader_exit_on a (t1, lg1) = Some (t2, lg2)"
      and x3: "find_node_loop (a @ [c]) (render cs) k' (t2, lg2) = Some ((t', lg'), r)"
      unfolding k by (auto split: option.splits)
    note y1 = entry_on_run [OF x1] and y2 = reader_exit_on_run [OF x2]
    have r12: "resync {a @ c # cs} t t2"
    proof (rule resync_trans)
      show "resync {a @ c # cs} t t1" using resync_below [OF y1(1), of cs] by simp
      show "resync {a @ c # cs} t1 t2" using resync_below [OF y2(1), of "c # cs"] by simp
    qed
    have ex: "get_node t2 b = None \<longleftrightarrow> get_node t b = None" for b
      by (rule resync_exists [OF r12])
    from e have e2: "get_node t2 (a @ [c]) \<noteq> None" by (simp add: ex)
    note ih = Cons.IH [OF x3 scs e2 k']
    from ih have ih1: "resync {a @ c # cs} t2 t'" by simp
    from ih have ih2: "get_node t2 (a @ c # cs) \<noteq> None \<Longrightarrow>
          r = Inr (a @ c # cs) \<and> lg' = lg2 @ descent k' (a @ [c]) cs" by simp
    have ih3: "r = Inl ENOENT \<and> lg' = lg2 @ descent k' (a @ [c]) pre @ [Reader_exit (a @ c # pre)]"
      if "cs = pre @ d # rest" "get_node t2 (a @ c # pre) \<noteq> None"
          "get_node t2 (a @ c # pre @ [d]) = None" for pre d rest
    proof -
      from that have "cs = pre @ d # rest \<and> get_node t2 ((a @ [c]) @ pre) \<noteq> None \<and>
          get_node t2 ((a @ [c]) @ pre @ [d]) = None" by simp
      with ih have "r = Inl ENOENT \<and>
          lg' = lg2 @ descent k' (a @ [c]) pre @ [Reader_exit ((a @ [c]) @ pre)]" by blast
      then show ?thesis by simp
    qed
    have l2: "lg2 = lg @ [if k' = 0 then Writer_entry (a @ [c]) else Reader_entry (a @ [c]),
        Reader_exit a]"
      using y1(2) y2(2) by simp
    have c1: "resync {a @ c # cs} t t'" using r12 ih1 by (rule resync_trans)
    have c2: "get_node t (a @ c # cs) \<noteq> None \<longrightarrow>
        r = Inr (a @ c # cs) \<and> lg' = lg @ descent k a (c # cs)"
      using ih2 l2 by (simp add: ex k)
    have c3: "r = Inl ENOENT \<and> lg' = lg @ descent k a pre @ [Reader_exit (a @ pre)]"
      if h: "c # cs = pre @ d # rest" "get_node t (a @ pre) \<noteq> None"
        "get_node t (a @ pre @ [d]) = None" for pre d rest
    proof (cases pre)
      case Nil
      with h e show ?thesis by simp
    next
      case (Cons c' pre')
      with h(1) have p: "pre = c # pre'" and cs: "cs = pre' @ d # rest" by simp_all
      from ih3 [OF cs] h(2,3) l2 show ?thesis unfolding p by (simp add: ex k)
    qed
    from c1 c2 c3 show ?thesis by blast
  qed
qed

lemma entry_on_exists: "entry_on k a (t, lg) = Some st \<Longrightarrow> get_node t a \<noteq> None"
  by (auto simp: entry_on_def writer_entry_on_def reader_entry_on_def split: if_splits option.splits)

lemma find_node_loop_result:
  assumes "find_node_loop a (render cs) k (t, lg) = Some ((t', lg'), r)"
    and "list_all slashfree cs" and "get_node t a \<noteq> None" and "length cs \<le> k"
  shows "r = (if get_node t (a @ cs) = None then Inl ENOENT else Inr (a @ cs))"
proof (cases "get_node t (a @ cs)")
  case None
  from missing_split_from [OF assms(3) None] obtain pre c rest where
    "cs = pre @ c # rest" "get_node t (a @ pre) \<noteq> None" "get_node t (a @ pre @ [c]) = None"
    by blast
  with find_node_loop_run [OF assms] have "r = Inl ENOENT" by blast
  with None show ?thesis by simp
next
  case (Some n)
  with find_node_loop_run [OF assms] show ?thesis by simp
qed

lemma find_node_run:
  assumes "find_node a (render cs) k (t, lg) = Some ((t', lg'), r)"
    and "list_all slashfree cs" and "length cs \<le> k"
  shows "resync {a @ cs} t t'"
    and "r = (if get_node t (a @ cs) = None then Inl ENOENT else Inr (a @ cs))"
    and "\<And>pre c rest. cs = pre @ c # rest \<Longrightarrow> get_node t (a @ pre) \<noteq> None \<Longrightarrow>
          get_node t (a @ pre @ [c]) = None \<Longrightarrow>
        lg' = lg @ Reader_entry a # descent k a pre @ [Reader_exit (a @ pre)]"
proof -
  from assms(1) obtain t1 lg1 where x1: "entry_on k a (t, lg) = Some (t1, lg1)"
    and x2: "find_node_loop a (render cs) k (t1, lg1) = Some ((t', lg'), r)"
    by (auto simp: find_node_def split: option.splits)
  note y1 = entry_on_run [OF x1]
  have ex: "get_node t1 b = None \<longleftrightarrow> get_node t b = None" for b
    by (rule resync_exists [OF y1(1)])
  from entry_on_exists [OF x1] have e1: "get_node t1 a \<noteq> None" by (simp add: ex)
  note run = find_node_loop_run [OF x2 assms(2) e1 assms(3)]
  from run have "resync {a @ cs} t1 t'" by simp
  with resync_below [OF y1(1), of cs] show "resync {a @ cs} t t'" by (rule resync_trans)
  from find_node_loop_result [OF x2 assms(2) e1 assms(3)]
  show "r = (if get_node t (a @ cs) = None then Inl ENOENT else Inr (a @ cs))" by (simp add: ex)
  fix pre c rest
  assume h: "cs = pre @ c # rest" "get_node t (a @ pre) \<noteq> None" "get_node t (a @ pre @ [c]) = None"
  then have "cs = pre @ c # rest \<and> get_node t1 (a @ pre) \<noteq> None \<and>
      get_node t1 (a @ pre @ [c]) = None" by (simp add: ex)
  with run have "lg' = lg1 @ descent k a pre @ [Reader_exit (a @ pre)]" by blast
  moreover from h(1) assms(3) have "k \<noteq> 0" by auto
  ultimately show "lg' = lg @ Reader_entry a # descent k a pre @ [Reader_exit (a @ pre)]"
    using y1(2) by simp
qed

lemma move_dfs_run:
  assumes "move_dfs l (render cs) k True (t, lg) = Some ((t', lg'), r)"
    and "list_all slashfree cs" and "get_node t l \<noteq> None" and "length cs \<le> k"
  shows "resync {l @ cs} t t'"
    and "r = (if get_node t (l @ cs) = None then Inl ENOENT else Inr (l @ cs))"
    and "\<And>b q c rest. cs = b # q @ c # rest \<Longrightarrow> get_node t (l @ b # q) \<noteq> None \<Longrightarrow>
          get_node t (l @ b # q @ [c]) = None \<Longrightarrow>
        lg' = lg @ Reader_entry (l @ [b]) # descent (k - 1) (l @ [b]) q @ [Reader_exit (l @ b # q)]"
proof -
  have "resync {l @ cs} t t' \<and>
    r = (if get_node t (l @ cs) = None then Inl ENOENT else Inr (l @ cs)) \<and>
    (\<forall>b q c rest. cs = b # q @ c # rest \<and> get_node t (l @ b # q) \<noteq> None \<and>
          get_node t (l @ b # q @ [c]) = None \<longrightarrow>
        lg' = lg @ Reader_entry (l @ [b]) # descent (k - 1) (l @ [b]) q @ [Reader_exit (l @ b # q)])"
  proof (cases cs)
    case Nil
    with assms(1,3) show ?thesis by (auto simp: move_dfs_lca_end)
  next
    case (Cons b cs')
    from assms(2) Cons have sb: "slashfree b" and scs: "list_all slashfree cs'" by simp_all
    from assms(4) Cons obtain k' where k: "k = Suc k'" and k': "length cs' \<le> k'"
      by (cases k) auto
    show ?thesis
    proof (cases "get_node t (l @ [b])")
      case None
      from assms(1) move_dfs_lca_missing [OF sb assms(3) None, of cs' k lg]
      have x: "t' = t" "lg' = lg" "r = Inl ENOENT" unfolding Cons by simp_all
      have m: "get_node t (l @ b # q) = None" for q
        using get_node_missing_below [OF None, of q] by simp
      from x m show ?thesis unfolding Cons by simp
    next
      case (Some son)
      then have e: "get_node t (l @ [b]) \<noteq> None" by simp
      from assms(1) move_dfs_lca_step [OF sb assms(3) e, of cs' k lg]
      obtain t1 lg1 where x1: "entry_on k' (l @ [b]) (t, lg) = Some (t1, lg1)"
        and x2: "find_node_loop (l @ [b]) (render cs') k' (t1, lg1) = Some ((t', lg'), r)"
        unfolding Cons k by (auto split: option.splits)
      note y1 = entry_on_run [OF x1]
      have ex: "get_node t1 b = None \<longleftrightarrow> get_node t b = None" for b
        by (rule resync_exists [OF y1(1)])
      from e have e1: "get_node t1 (l @ [b]) \<noteq> None" by (simp add: ex)
      note run = find_node_loop_run [OF x2 scs e1 k']
      from run have "resync {l @ b # cs'} t1 t'" by simp
      with resync_below [OF y1(1), of cs']
      have c1: "resync {l @ b # cs'} t t'" by (simp add: resync_trans)
      from find_node_loop_result [OF x2 scs e1 k']
      have c2: "r = (if get_node t (l @ b # cs') = None then Inl ENOENT else Inr (l @ b # cs'))"
        by (simp add: ex)
      have c3: "lg' = lg @ Reader_entry (l @ [b]) # descent (k - 1) (l @ [b]) q @
            [Reader_exit (l @ b # q)]"
        if h: "cs' = q @ c # rest" "get_node t (l @ b # q) \<noteq> None"
          "get_node t (l @ b # q @ [c]) = None" for q c rest
      proof -
        from h have "cs' = q @ c # rest \<and> get_node t1 ((l @ [b]) @ q) \<noteq> None \<and>
            get_node t1 ((l @ [b]) @ q @ [c]) = None" by (simp add: ex)
        with run have "lg' = lg1 @ descent k' (l @ [b]) q @ [Reader_exit ((l @ [b]) @ q)]"
          by blast
        moreover from h(1) k' have "k' \<noteq> 0" by auto
        ultimately show ?thesis using y1(2) by (simp add: k)
      qed
      from c1 c2 c3 show ?thesis unfolding Cons by simp
    qed
  qed
  then show "resync {l @ cs} t t'"
    and "r = (if get_node t (l @ cs) = None then Inl ENOENT else Inr (l @ cs))"
    and "\<And>b q c rest. cs = b # q @ c # rest \<Longrightarrow> get_node t (l @ b # q) \<noteq> None \<Longrightarrow>
          get_node t (l @ b # q @ [c]) = None \<Longrightarrow>
        lg' = lg @ Reader_entry (l @ [b]) # descent (k - 1) (l @ [b]) q @ [Reader_exit (l @ b # q)]"
    by blast+
qed


lemma move_outcome_contents:
  assumes "contents t1 = contents t"
  shows "snd (move_outcome t1 S sn T tn) = snd (move_outcome t S sn T tn)"
    and "contents (fst (move_outcome t1 S sn T tn)) = contents (fst (move_outcome t S sn T tn))"
proof -
  note ex = contents_exists [OF assms]
  have c: "contents sub1 = contents sub"
    if "get_node t1 (S @ [sn]) = Some sub1" "get_node t (S @ [sn]) = Some sub" for sub1 sub
    using get_node_contents [of t1 "S @ [sn]"] get_node_contents [of t "S @ [sn]"] that assms
    by simp
  show "snd (move_outcome t1 S sn T tn) = snd (move_outcome t S sn T tn)"
    using ex [of T] ex [of "T @ [tn]"] ex [of "S @ [sn]"]
    by (auto simp: move_outcome_def split: option.splits)
  show "contents (fst (move_outcome t1 S sn T tn)) = contents (fst (move_outcome t S sn T tn))"
    using ex [of T] ex [of "T @ [tn]"] ex [of "S @ [sn]"] assms c
    by (auto simp: move_outcome_def contents_insert contents_remove split: option.splits)
qed

lemma when_on_run:
  assumes "when_on b (writer_exit_on a) (t, lg) = Some (t1, lg1)"
  shows "resync {a} t t1"
  using assms writer_exit_on_run(1) [of a t lg t1 lg1] by (cases b) auto

lemma resync_sub: "resync {a} t t' \<Longrightarrow> a \<in> A \<Longrightarrow> resync A t t'"
  by (rule resync_mono) auto

lemma source_dfs_run:
  assumes sf: "list_all slashfree S'" and S: "S = L @ S'"
    and eL: "get_node t L \<noteq> None" and eT: "get_node t T \<noteq> None"
    and aT: "get_node t (T @ [tn]) = None" and na: "\<not> prefix (S @ [sn]) T"
    and run: "source_dfs L T (render S') sn tn (length S') (t, lg) = Some ((t', lg'), e)"
  shows "e = snd (move_outcome t S sn T tn)"
    and "contents t' = contents (fst (move_outcome t S sn T tn))"
    and "e = 0 \<Longrightarrow> get_node t' (T @ [tn]) = get_node t (S @ [sn]) \<and> get_node t' (S @ [sn]) = None"
proof -
  from run obtain t1 lg1 r1 where
    d: "move_dfs L (render S') (length S') True (t, lg) = Some ((t1, lg1), r1)"
    by (auto simp: source_dfs_def split: option.splits)
  note y = move_dfs_run [OF d sf eL order_refl, folded S]
  note ex1 = resync_exists [OF y(1)]
  have "e = snd (move_outcome t S sn T tn) \<and>
      contents t' = contents (fst (move_outcome t S sn T tn)) \<and>
      (e = 0 \<longrightarrow> get_node t' (T @ [tn]) = get_node t (S @ [sn]) \<and> get_node t' (S @ [sn]) = None)"
  proof (cases "get_node t (S @ [sn])")
    case None
    then have o: "move_outcome t S sn T tn = (t, ENOENT)"
      using eT aT by (simp add: move_outcome_def)
    show ?thesis
    proof (cases "get_node t S")
      case N: None
      with y(2) have r1: "r1 = Inl ENOENT" by simp
      from run obtain t2 lg2 where
        w1: "when_on (L \<noteq> T) (writer_exit_on T) (t1, lg1) = Some (t2, lg2)"
        and w2: "writer_exit_on L (t2, lg2) = Some (t', lg')" and e: "e = ENOENT"
        unfolding source_dfs_def d r1 by (auto split: option.splits)
      from y(1) when_on_run [OF w1] writer_exit_on_run(1) [OF w2]
      have "contents t' = contents t" by (simp add: resync_def)
      with e o show ?thesis by simp
    next
      case (Some nS)
      with y(2) have r1: "r1 = Inr S" by simp
      from Some have e1: "get_node t1 S \<noteq> None" by (simp add: ex1)
      from None have m1: "get_node t1 (S @ [sn]) = None" by (simp add: ex1)
      from run obtain t2 lg2 t3 lg3 where
        w1: "when_on (S \<noteq> L) (writer_exit_on S) (t1, lg1) = Some (t2, lg2)"
        and w2: "when_on (T \<noteq> L) (writer_exit_on T) (t2, lg2) = Some (t3, lg3)"
        and w3: "writer_exit_on L (t3, lg3) = Some (t', lg')" and e: "e = ENOENT"
        unfolding source_dfs_def d r1
        by (auto simp: child_case_None [OF e1 m1] split: option.splits)
      from y(1) when_on_run [OF w1] when_on_run [OF w2] writer_exit_on_run(1) [OF w3]
      have "contents t' = contents t" by (simp add: resync_def)
      with e o show ?thesis by simp
    qed
  next
    case (Some sub)
    then have o: "move_outcome t S sn T tn =
        (upd_node (map_tmap (\<lambda>m. hmap_insert m tn sub)) T
           (upd_node (map_tmap (\<lambda>m. hmap_remove m sn)) S t), 0)"
      using eT aT by (simp add: move_outcome_def)
    from Some have eS: "get_node t S \<noteq> None" using get_node_prefix [of t S "[sn]"] by simp
    with y(2) have r1: "r1 = Inr S" by simp
    from eS have e1: "get_node t1 S \<noteq> None" by (simp add: ex1)
    have "get_node t1 (S @ [sn]) = get_node t (S @ [sn])"
      by (rule resync_get [OF y(1)]) simp
    with Some have s1: "get_node t1 (S @ [sn]) = Some sub" by simp
    from run obtain t2 lg2 st3 tbm st6 where
      w1: "when_on (L \<noteq> S \<and> L \<noteq> T) (writer_exit_on L) (t1, lg1) = Some (t2, lg2)"
      and b: "bfs_clear_on (S @ [sn]) (t2, lg2) = Some st3"
      and g: "get_node (fst st3) (S @ [sn]) = Some tbm"
      and w2: "when_on (S \<noteq> T) (writer_exit_on S)
            (insert_at T tn tbm (remove_at S sn st3)) = Some st6"
      and w3: "writer_exit_on T st6 = Some (t', lg')" and e: "e = 0"
      unfolding source_dfs_def d r1
      by (auto simp: child_case_Some [OF e1 s1] Let_def split: option.splits)
    from b have st3: "st3 = (t2, lg2)" by (auto simp: bfs_clear_on_def split: option.splits if_splits)
    have pL: "\<not> prefix (S @ [sn]) L" unfolding S by (auto simp: prefix_def)
    have r2: "resync {L} t1 t2" by (rule when_on_run [OF w1])
    have r02: "resync {S} t t2"
      using y(1) resync_mono [OF r2, of "{S}"] by (auto simp: S intro: resync_trans)
    have "get_node t2 (S @ [sn]) = get_node t (S @ [sn])"
      by (rule resync_get [OF r02]) simp
    with g Some have tbm: "tbm = sub" unfolding st3 by simp
    let ?t5 = "upd_node (map_tmap (\<lambda>m. hmap_insert m tn sub)) T
           (upd_node (map_tmap (\<lambda>m. hmap_remove m sn)) S t2)"
    note ex2 = resync_exists [OF r02]
    have m5: "get_node ?t5 (T @ [tn]) = Some sub" "get_node ?t5 (S @ [sn]) = None"
      by (rule moved_subtree; simp add: ex2 eS eT aT na
          \<open>get_node t2 (S @ [sn]) = get_node t (S @ [sn])\<close> Some)+
    obtain t6 lg6 where st6: "st6 = (t6, lg6)" by (cases st6)
    from w2 have r56: "resync {S} ?t5 t6"
      unfolding st6 st3 tbm insert_at_def remove_at_def by (simp add: when_on_run)
    from w3 have r67: "resync {T} t6 t'" unfolding st6 by (rule writer_exit_on_run(1))
    have r57: "resync {S, T} ?t5 t'"
      using resync_sub [OF r56, of "{S, T}"] resync_sub [OF r67, of "{S, T}"]
      by (auto intro: resync_trans)
    have pS: "\<not> prefix (T @ [tn]) S"
    proof
      assume "prefix (T @ [tn]) S"
      then obtain x where "S = (T @ [tn]) @ x" by (auto simp: prefix_def)
      with get_node_missing_below [OF aT, of x] eS show False by simp
    qed
    have "get_node t' (T @ [tn]) = get_node ?t5 (T @ [tn])"
      by (rule resync_get [OF r57]) (simp add: pS)
    with m5 Some have c3: "get_node t' (T @ [tn]) = get_node t (S @ [sn])" by simp
    from m5(2) have c4: "get_node t' (S @ [sn]) = None" by (simp add: resync_exists [OF r57])
    have "contents t' = contents ?t5" by (rule resync_contents [OF r57])
    also have "\<dots> = contents (fst (move_outcome t S sn T tn))"
      unfolding o by (simp add: contents_insert contents_remove resync_contents [OF r02])
    finally show ?thesis using e o c3 c4 by simp
  qed
  then show "e = snd (move_outcome t S sn T tn)"
    and "contents t' = contents (fst (move_outcome t S sn T tn))"
    and "e = 0 \<Longrightarrow> get_node t' (T @ [tn]) = get_node t (S @ [sn]) \<and> get_node t' (S @ [sn]) = None"
    by blast+
qed

lemma target_dfs_run:
  assumes sfS: "list_all slashfree S'" and sfT: "list_all slashfree T'"
    and S: "S = L @ S'" and T: "T = L @ T'"
    and eL: "get_node t L \<noteq> None" and na: "\<not> prefix (S @ [sn]) T"
    and run: "target_dfs L (render T') tn (render S') sn (length T') (length S') (t, lg) =
        Some ((t', lg'), e)"
  shows "e = snd (move_outcome t S sn T tn)"
    and "contents t' = contents (fst (move_outcome t S sn T tn))"
    and "e = 0 \<Longrightarrow> get_node t' (T @ [tn]) = get_node t (S @ [sn]) \<and> get_node t' (S @ [sn]) = None"
proof -
  from run obtain t1 lg1 r1 where
    d: "move_dfs L (render T') (length T') True (t, lg) = Some ((t1, lg1), r1)"
    by (auto simp: target_dfs_def split: option.splits)
  note y = move_dfs_run [OF d sfT eL order_refl, folded T]
  note ex1 = resync_exists [OF y(1)]
  have "e = snd (move_outcome t S sn T tn) \<and>
      contents t' = contents (fst (move_outcome t S sn T tn)) \<and>
      (e = 0 \<longrightarrow> get_node t' (T @ [tn]) = get_node t (S @ [sn]) \<and> get_node t' (S @ [sn]) = None)"
  proof (cases "get_node t T")
    case None
    then have o: "move_outcome t S sn T tn = (t, ENOENT)" by (simp add: move_outcome_def)
    from None y(2) have r1: "r1 = Inl ENOENT" by simp
    from run obtain t2 lg2 where
      w: "writer_exit_on L (t1, lg1) = Some (t', lg')" and e: "e = ENOENT"
      unfolding target_dfs_def d r1 by (auto split: option.splits)
    from y(1) writer_exit_on_run(1) [OF w]
    have "contents t' = contents t" by (simp add: resync_def)
    with e o show ?thesis by simp
  next
    case (Some nT)
    then have eT: "get_node t T \<noteq> None" by simp
    with y(2) have r1: "r1 = Inr T" by simp
    from eT have e1: "get_node t1 T \<noteq> None" by (simp add: ex1)
    show ?thesis
    proof (cases "get_node t (T @ [tn])")
      case N: None
      then have m1: "get_node t1 (T @ [tn]) = None" by (simp add: ex1)
      from run have s: "source_dfs L T (render S') sn tn (length S') (t1, lg1) =
          Some ((t', lg'), e)"
        unfolding target_dfs_def d r1 by (simp add: child_case_None [OF e1 m1])
      from eL have eL1: "get_node t1 L \<noteq> None" by (simp add: ex1)
      note z = source_dfs_run [OF sfS S eL1 e1 m1 na s]
      note c = move_outcome_contents [OF resync_contents [OF y(1)], of S sn T tn]
      have "get_node t1 (S @ [sn]) = get_node t (S @ [sn])"
        by (rule resync_get [OF y(1)]) (simp add: na)
      with z c show ?thesis by simp
    next
      case S2: (Some x)
      then have o: "move_outcome t S sn T tn = (t, EEXIST)"
        using eT by (simp add: move_outcome_def)
      from S2 obtain x1 where s1: "get_node t1 (T @ [tn]) = Some x1"
        using ex1 [of "T @ [tn]"] by auto
      from run obtain t2 lg2 where
        w1: "when_on (T \<noteq> L) (writer_exit_on T) (t1, lg1) = Some (t2, lg2)"
        and w2: "writer_exit_on L (t2, lg2) = Some (t', lg')" and e: "e = EEXIST"
        unfolding target_dfs_def d r1
        by (auto simp: child_case_Some [OF e1 s1] split: option.splits)
      from y(1) when_on_run [OF w1] writer_exit_on_run(1) [OF w2]
      have "contents t' = contents t" by (simp add: resync_def)
      with e o show ?thesis by simp
    qed
  qed
  then show "e = snd (move_outcome t S sn T tn)"
    and "contents t' = contents (fst (move_outcome t S sn T tn))"
    and "e = 0 \<Longrightarrow> get_node t' (T @ [tn]) = get_node t (S @ [sn]) \<and> get_node t' (S @ [sn]) = None"
    by blast+
qed

lemma tree_move_run:
  assumes nS: "list_all (is_name mx) (S @ [sn])" and nT: "list_all (is_name mx) (T @ [tn])"
    and ns: "\<not> strict_prefix (S @ [sn]) (T @ [tn])"
    and run: "tree_move mx (t, lg) (render (S @ [sn])) (render (T @ [tn])) = Some ((t', lg'), e)"
  shows "e = snd (move_outcome t S sn T tn)"
    and "contents t' = contents (fst (move_outcome t S sn T tn))"
    and "e = 0 \<Longrightarrow> get_node t' (T @ [tn]) = get_node t (S @ [sn]) \<and> get_node t' (S @ [sn]) = None"
proof -
  obtain S' T' where S: "S = longest_common_prefix S T @ S'"
    and T: "T = longest_common_prefix S T @ T'"
    by (rule lcp_decomp)
  define L where "L = longest_common_prefix S T"
  note S = S [folded L_def] and T = T [folded L_def]
  note unf = tree_move_unfold [OF nS nT ns S T L_def, of "(t, lg)"]
  from names_slashfree [OF nS] names_slashfree [OF nT] S T
  have sf: "list_all slashfree L" "list_all slashfree S'" "list_all slashfree T'"
    by (metis list_all_append)+
  have na: "\<not> prefix (S @ [sn]) T"
  proof
    assume "prefix (S @ [sn]) T"
    then have "strict_prefix (S @ [sn]) (T @ [tn])"
      by (auto simp: prefix_def strict_prefix_def)
    with ns show False ..
  qed
  have unf': "tree_move mx (t, lg) (render (S @ [sn])) (render (T @ [tn])) =
        (case find_node [] (render L) (length L) (t, lg) of
           None \<Rightarrow> None
         | Some (st2, Inl err) \<Rightarrow> Some (st2, err)
         | Some (st2, Inr lca) \<Rightarrow>
             target_dfs lca (render T') tn (render S') sn (length T') (length S') st2)"
    unfolding unf find_node_def
    by (simp add: move_lca_loop_eq [OF sf(1)] split: option.splits sum.splits)
  from run obtain t1 lg1 r1 where
    f: "find_node [] (render L) (length L) (t, lg) = Some ((t1, lg1), r1)"
    unfolding unf' by (auto split: option.splits)
  note y = find_node_run [OF f sf(1) order_refl]
  from y(1) have r01: "resync {L} t t1" by simp
  have "e = snd (move_outcome t S sn T tn) \<and>
      contents t' = contents (fst (move_outcome t S sn T tn)) \<and>
      (e = 0 \<longrightarrow> get_node t' (T @ [tn]) = get_node t (S @ [sn]) \<and> get_node t' (S @ [sn]) = None)"
  proof (cases "get_node t L")
    case None
    from get_node_missing_below [OF this, of T'] T have "get_node t T = None" by simp
    then have o: "move_outcome t S sn T tn = (t, ENOENT)" by (simp add: move_outcome_def)
    from None y(2) have r1: "r1 = Inl ENOENT" by simp
    from run have "t' = t1" "e = ENOENT" unfolding unf' f r1 by simp_all
    with o resync_contents [OF r01] show ?thesis by simp
  next
    case (Some nL)
    with y(2) have r1: "r1 = Inr L" by simp
    from Some have eL1: "get_node t1 L \<noteq> None" by (simp add: resync_exists [OF r01])
    from run have d: "target_dfs L (render T') tn (render S') sn (length T') (length S') (t1, lg1) =
        Some ((t', lg'), e)" unfolding unf' f r1 by simp
    note z = target_dfs_run [OF sf(2,3) S T eL1 na d]
    note c = move_outcome_contents [OF resync_contents [OF r01], of S sn T tn]
    have "\<not> prefix (S @ [sn]) L"
    proof
      assume "prefix (S @ [sn]) L"
      then have "length (S @ [sn]) \<le> length L" by (rule prefix_length_le)
      moreover have "length L \<le> length S" using arg_cong [OF S, of length] by simp
      ultimately show False by simp
    qed
    then have "get_node t1 (S @ [sn]) = get_node t (S @ [sn])"
      by (intro resync_get [OF r01]) simp
    with z c show ?thesis by simp
  qed
  then show "e = snd (move_outcome t S sn T tn)"
    and "contents t' = contents (fst (move_outcome t S sn T tn))"
    and "e = 0 \<Longrightarrow> get_node t' (T @ [tn]) = get_node t (S @ [sn]) \<and> get_node t' (S @ [sn]) = None"
    by blast+
qed

lemma tree_move_returns_zero:
  assumes "tree_move mx (t, lg) s tg = Some ((t', lg'), 0)"
  obtains S sn T tn where "path_components s = S @ [sn]" and "path_components tg = T @ [tn]"
    and "s = render (S @ [sn])" and "tg = render (T @ [tn])"
    and "list_all (is_name mx) (S @ [sn])" and "list_all (is_name mx) (T @ [tn])"
    and "\<not> strict_prefix (S @ [sn]) (T @ [tn])"
proof -
  from assms have v: "is_path_valid mx s" "is_path_valid mx tg" "s \<noteq> ''/''" "tg \<noteq> ''/''"
    by (auto simp: tree_move_def is_root_def split: if_splits)
  from v(1,3) obtain S sn where s: "s = render (S @ [sn])"
    and nS: "list_all (is_name mx) (S @ [sn])" and pS: "path_components s = S @ [sn]"
    by (rule valid_nonroot_parts)
  from v(2,4) obtain T tn where tg: "tg = render (T @ [tn])"
    and nT: "list_all (is_name mx) (T @ [tn])" and pT: "path_components tg = T @ [tn]"
    by (rule valid_nonroot_parts)
  have ns: "\<not> strict_prefix (S @ [sn]) (T @ [tn])"
  proof
    assume "strict_prefix (S @ [sn]) (T @ [tn])"
    with pS pT have "strict_prefix (path_components s) (path_components tg)" by simp
    from tree_move_ancestor [OF v(1,2,3) this, of "(t, lg)"] assms show False by simp
  qed
  from pS pT s tg nS nT ns that show ?thesis by blast
qed

lemma tree_move_find:
  assumes nS: "list_all (is_name mx) (S @ [sn])" and nT: "list_all (is_name mx) (T @ [tn])"
    and ns: "\<not> strict_prefix (S @ [sn]) (T @ [tn])"
    and S: "S = L @ S'" and T: "T = L @ T'" and L: "L = longest_common_prefix S T"
  shows "tree_move mx st (render (S @ [sn])) (render (T @ [tn])) =
        (case find_node [] (render L) (length L) st of
           None \<Rightarrow> None
         | Some (st2, Inl err) \<Rightarrow> Some (st2, err)
         | Some (st2, Inr lca) \<Rightarrow>
             target_dfs lca (render T') tn (render S') sn (length T') (length S') st2)"
proof -
  from names_slashfree [OF nS] S have sf: "list_all slashfree L" by (metis list_all_append)
  show ?thesis
    unfolding tree_move_unfold [OF nS nT ns S T L] find_node_def
    by (simp add: move_lca_loop_eq [OF sf] split: option.splits sum.splits)
qed

lemma find_node_missing_run:
  assumes sf: "list_all slashfree (pre @ c # rest)"
    and e: "get_node t pre \<noteq> None" and m: "get_node t (pre @ [c]) = None"
    and run: "find_node [] (render (pre @ c # rest)) (length (pre @ c # rest)) (t, lg) =
      Some ((t', lg'), r)"
  shows "r = Inl ENOENT \<and> contents t' = contents t \<and>
     (\<exists>ev. \<not> list_ex writer_event ev \<and> lg' = lg @ ev @ [Reader_exit pre])"
proof -
  have m': "get_node t ([] @ pre @ c # rest) = None"
    using get_node_missing_below [OF m, of rest] by simp
  note y = find_node_run [OF run sf order_refl]
  let ?ev = "Reader_entry [] # descent (length (pre @ c # rest)) [] pre"
  have "\<not> list_ex writer_event ?ev" by (simp add: descent_readers)
  moreover from y(3) [OF refl] e m have "lg' = lg @ ?ev @ [Reader_exit pre]" by simp
  moreover from y(2) m' have "r = Inl ENOENT" by simp
  moreover from y(1) have "contents t' = contents t" by (rule resync_contents)
  ultimately show ?thesis by blast
qed

lemma shared_prefix_missing_run:
  assumes nS: "list_all (is_name mx) (S @ [sn])" and nT: "list_all (is_name mx) (T @ [tn])"
    and ns: "\<not> strict_prefix (S @ [sn]) (T @ [tn])"
    and L: "longest_common_prefix S T = pre @ c # rest"
    and e: "get_node t pre \<noteq> None" and m: "get_node t (pre @ [c]) = None"
    and run: "tree_move mx (t, lg) (render (S @ [sn])) (render (T @ [tn])) = Some ((t', lg'), e')"
  shows "e' = ENOENT \<and> contents t' = contents t \<and>
     (\<exists>ev. \<not> list_ex writer_event ev \<and> lg' = lg @ ev @ [Reader_exit pre])"
proof -
  obtain S' T' where S: "S = longest_common_prefix S T @ S'"
    and T: "T = longest_common_prefix S T @ T'"
    by (rule lcp_decomp)
  note unf = tree_move_find [OF nS nT ns S T refl, of "(t, lg)", unfolded L]
  from names_slashfree [OF nS] S L have sf: "list_all slashfree (pre @ c # rest)"
    by (metis list_all_append)
  from run obtain t1 lg1 r1 where
    f: "find_node [] (render (pre @ c # rest)) (length (pre @ c # rest)) (t, lg) =
        Some ((t1, lg1), r1)"
    unfolding unf by (auto split: option.splits)
  note y = find_node_missing_run [OF sf e m f]
  then have r1: "r1 = Inl ENOENT" by simp
  from run have "t' = t1" "lg' = lg1" "e' = ENOENT" unfolding unf f r1 by simp_all
  with y show ?thesis by simp
qed

lemma branch_missing_run:
  assumes sf: "list_all slashfree (b # q @ c # rest)"
    and e: "get_node t (l @ b # q) \<noteq> None" and m: "get_node t (l @ b # q @ [c]) = None"
    and run: "move_dfs l (render (b # q @ c # rest)) (length (b # q @ c # rest)) True (t, lg) =
      Some ((t', lg'), r)"
  shows "r = Inl ENOENT \<and> contents t' = contents t \<and>
     (\<exists>ev. \<not> list_ex writer_event ev \<and> lg' = lg @ ev @ [Reader_exit (l @ b # q)])"
proof -
  from e have el: "get_node t l \<noteq> None" by (rule get_node_prefix)
  have m': "get_node t (l @ b # q @ c # rest) = None"
    using get_node_missing_below [of t "l @ b # q @ [c]" rest] m by simp
  note y = move_dfs_run [OF run sf el order_refl]
  let ?ev = "Reader_entry (l @ [b]) # descent (length (q @ c # rest)) (l @ [b]) q"
  have "\<not> list_ex writer_event ?ev" by (simp add: descent_readers)
  moreover from y(3) [OF refl e m] have "lg' = lg @ ?ev @ [Reader_exit (l @ b # q)]" by simp
  moreover from y(2) m' have "r = Inl ENOENT" by simp
  moreover from y(1) have "contents t' = contents t" by (rule resync_contents)
  ultimately show ?thesis by blast
qed

lemma lca_missing_callers:
  assumes sc: "slashfree c" and e: "get_node t pre \<noteq> None" and m: "get_node t (pre @ [c]) = None"
  shows "\<exists>t'. target_dfs pre (render (c # rest)) tn source sn k ks (t, lg) =
       Some ((t', lg @ [Writer_exit pre]), ENOENT)"
    and "get_node t tgt \<noteq> None \<Longrightarrow>
       \<exists>t'. source_dfs pre tgt (render (c # rest)) sn tn k (t, lg) =
         Some ((t', lg @ (if pre \<noteq> tgt then [Writer_exit tgt] else []) @ [Writer_exit pre]),
               ENOENT)"
proof -
  note d = move_dfs_lca_missing [OF sc e m]
  from writer_exit_on_returns [OF e, of lg]
  show "\<exists>t'. target_dfs pre (render (c # rest)) tn source sn k ks (t, lg) =
       Some ((t', lg @ [Writer_exit pre]), ENOENT)"
    by (auto simp: target_dfs_def d)
  assume g: "get_node t tgt \<noteq> None"
  show "\<exists>t'. source_dfs pre tgt (render (c # rest)) sn tn k (t, lg) =
         Some ((t', lg @ (if pre \<noteq> tgt then [Writer_exit tgt] else []) @ [Writer_exit pre]),
               ENOENT)"
  proof (cases "pre = tgt")
    case True
    from writer_exit_on_returns [OF e, of lg] obtain t1 where
      w: "writer_exit_on pre (t, lg) = Some (t1, lg @ [Writer_exit pre])" by blast
    show ?thesis unfolding source_dfs_def d using True w by simp
  next
    case False
    from writer_exit_on_returns [OF g, of lg] obtain t1 where
      w1: "writer_exit_on tgt (t, lg) = Some (t1, lg @ [Writer_exit tgt])" by blast
    from e have "get_node t1 pre \<noteq> None"
      by (simp add: resync_exists [OF writer_exit_on_run(1) [OF w1]])
    from writer_exit_on_returns [OF this, of "lg @ [Writer_exit tgt]"] obtain t2 where
      w2: "writer_exit_on pre (t1, lg @ [Writer_exit tgt]) =
        Some (t2, lg @ [Writer_exit tgt] @ [Writer_exit pre])" by auto
    show ?thesis unfolding source_dfs_def d using False w1 w2 by simp
  qed
qed

lemma branch_returns:
  assumes "list_all slashfree (b # q @ [c])"
    and "get_node t (l @ b # q) \<noteq> None" and "get_node t (l @ b # q @ [c]) = None"
    and "\<forall>q'. prefix q' q \<longrightarrow> map_option tsync (get_node t (l @ b # q')) = Some sync_new"
  shows "move_dfs l (render (b # q @ c # rest)) (length (b # q @ c # rest)) True (t, lg) \<noteq> None"
proof -
  from assms(2) have "get_node t l \<noteq> None" by (rule get_node_prefix)
  from branch_fail_below [OF assms(1) this assms(4,3), of rest lg] show ?thesis by simp
qed

text \<open>Runs of the examples.\<close>

lemma busy_examples [simp]: "\<not> idle tree_a_b_z" "\<not> idle tree_a_b_held"
  by (simp_all add: tree_a_b_z_def tree_a_b_held_def sR_def sW_def sync_new_def)

lemma tree_move_a_b:
  "tree_move 255 (tree_a_b, []) ''/a/b/'' ''/c/'' =
     Some ((Tree [(''a'', Tree [] sync_new), (''c'', tree_new)] sync_new,
            [Writer_entry [], Writer_entry [''a''], Writer_exit [''a''], Writer_exit []]), 0)"
  by code_simp

lemma tree_move_a_b_z:
  "tree_move 255 (tree_a_b_z, []) ''/a/b/'' ''/c/'' =
     Some ((Tree [(''a'', Tree [] sync_new), (''z'', Tree [] sR), (''c'', tree_new)] sync_new,
            [Writer_entry [], Writer_entry [''a''], Writer_exit [''a''], Writer_exit []]), 0)"
  by code_simp



lemma missing_runs:
  "find_node [] (render ([''a''] @ ''c'' # [])) (length ([''a''] @ ''c'' # [])) (tree_a_b, []) =
     Some ((tree_a_b, [Reader_entry [], Reader_entry [''a''], Reader_exit [], Reader_exit [''a'']]),
           Inl ENOENT)"
  "tree_move 255 (tree_a_b, []) (render ([''a'', ''c''] @ [''x'']))
       (render ([''a'', ''c''] @ [''y''])) =
     Some ((tree_a_b, [Reader_entry [], Reader_entry [''a''], Reader_exit [], Reader_exit [''a'']]),
           ENOENT)"
  "move_dfs [] (render (''a'' # [] @ ''c'' # [])) (length (''a'' # [] @ ''c'' # [])) True
       (tree_a_b_held, []) =
     Some ((tree_a_b_held, [Reader_entry [''a''], Reader_exit [''a'']]), Inl ENOENT)"
  by code_simp+

section \<open>The claims of the specification\<close>

text \<open>
  Claim C1. In every state of a node that its threads can reach from a fresh node,
  \<open>wcount\<close> is 0 or 1, and \<open>rcount\<close> is 0 whenever \<open>wcount\<close> is 1; every step
  of the entry and exit protocols taken from such a state leads to a state with the
  same property.
\<close>

theorem exclusion_reachable:
  "reachable st \<Longrightarrow>
     exclusion (fst st) \<and> (\<forall>st'. step st st' \<longrightarrow> exclusion (fst st'))"
proof
  assume r: "reachable st"
  then show "exclusion (fst st)"
    by (rule monitor_inv_exclusion [OF reachable_monitor_inv])
  show "\<forall>st'. step st st' \<longrightarrow> exclusion (fst st')"
  proof (intro allI impI)
    fix st'
    assume "step st st'"
    with r have "reachable st'" by (rule reach_step)
    then show "exclusion (fst st')"
      by (rule monitor_inv_exclusion [OF reachable_monitor_inv])
  qed
qed

theorem exclusion_reachable_witness:
  "reachable (sync_new\<lparr>wcount := 1\<rparr>, [Writing, Idle]) \<and>
   exclusion (sync_new\<lparr>wcount := 1\<rparr>) \<and>
   step (sync_new\<lparr>wcount := 1\<rparr>, [Writing, Idle])
        (sync_new\<lparr>wcount := 1, rwait := 1\<rparr>, [Writing, RWaiting]) \<and>
   exclusion (sync_new\<lparr>wcount := 1, rwait := 1\<rparr>)"
proof -
  have w: "writer_entry_pass sync_new = (sync_new\<lparr>wcount := 1\<rparr>, Writing)"
    by (simp add: writer_entry_pass_def writer_must_wait_def writer_admit_def sync_new_def)
  have "step (sync_new, replicate 2 Idle) (sync_new\<lparr>wcount := 1\<rparr>, (replicate 2 Idle)[0 := Writing])"
    by (rule writer_call [OF _ _ w]) simp_all
  with reach_init [of 2]
  have r: "reachable (sync_new\<lparr>wcount := 1\<rparr>, (replicate 2 Idle)[0 := Writing])"
    by (rule reach_step)
  have e: "(replicate 2 Idle)[0 := Writing] = [Writing, Idle]"
    by (simp add: numeral_2_eq_2)
  have b: "reader_entry_pass (sync_new\<lparr>wcount := 1\<rparr>) = (sync_new\<lparr>wcount := 1, rwait := 1\<rparr>, RWaiting)"
    by (simp add: reader_entry_pass_def reader_must_wait_def sync_new_def)
  have s: "step (sync_new\<lparr>wcount := 1\<rparr>, [Writing, Idle])
        (sync_new\<lparr>wcount := 1, rwait := 1\<rparr>, [Writing, Idle][1 := RWaiting])"
    by (rule reader_call [OF _ _ b]) simp_all
  from r e have r': "reachable (sync_new\<lparr>wcount := 1\<rparr>, [Writing, Idle])" by simp
  from s have s': "step (sync_new\<lparr>wcount := 1\<rparr>, [Writing, Idle])
        (sync_new\<lparr>wcount := 1, rwait := 1\<rparr>, [Writing, RWaiting])" by simp
  from exclusion_reachable [OF r'] s'
  have "exclusion (fst (sync_new\<lparr>wcount := 1\<rparr>, [Writing, Idle]))"
    and "exclusion (fst (sync_new\<lparr>wcount := 1, rwait := 1\<rparr>, [Writing, RWaiting]))"
    by blast+
  with r' s' show ?thesis by simp
qed

text \<open>
  Claim C2. \<open>writer_exit_protocol\<close> decrements \<open>wcount\<close> in every case and leaves the
  other counters alone; with waiting readers it sets \<open>change\<close> to their number and
  signals \<open>readers\<close>; otherwise, with waiting writers, it sets \<open>change\<close> to -1 and
  signals \<open>writers\<close>; otherwise, when \<open>cwait\<close> holds, it signals \<open>clear\<close>; otherwise
  it signals nothing.
\<close>

theorem writer_exit_baton:
  "wcount (fst (writer_exit_protocol s)) = wcount s - 1 \<and>
   rcount (fst (writer_exit_protocol s)) = rcount s \<and>
   rwait (fst (writer_exit_protocol s)) = rwait s \<and>
   wwait (fst (writer_exit_protocol s)) = wwait s \<and>
   cwait (fst (writer_exit_protocol s)) = cwait s \<and>
   (0 < rwait s \<longrightarrow>
      change (fst (writer_exit_protocol s)) = rwait s \<and>
      snd (writer_exit_protocol s) = Some Readers) \<and>
   (\<not> 0 < rwait s \<and> 0 < wwait s \<longrightarrow>
      change (fst (writer_exit_protocol s)) = - 1 \<and>
      snd (writer_exit_protocol s) = Some Writers) \<and>
   (\<not> 0 < rwait s \<and> \<not> 0 < wwait s \<and> cwait s \<longrightarrow>
      change (fst (writer_exit_protocol s)) = change s \<and>
      snd (writer_exit_protocol s) = Some Clear) \<and>
   (\<not> 0 < rwait s \<and> \<not> 0 < wwait s \<and> \<not> cwait s \<longrightarrow>
      change (fst (writer_exit_protocol s)) = change s \<and>
      snd (writer_exit_protocol s) = None)"
  by (simp add: writer_exit_protocol_def Let_def)

theorem writer_exit_baton_witness:
  "writer_exit_protocol (sync_new\<lparr>wcount := 1, rwait := 2, wwait := 1, cwait := True\<rparr>) =
     (sync_new\<lparr>wcount := 0, rwait := 2, wwait := 1, cwait := True, change := 2\<rparr>, Some Readers) \<and>
   writer_exit_protocol (sync_new\<lparr>wcount := 1, wwait := 1, cwait := True\<rparr>) =
     (sync_new\<lparr>wcount := 0, wwait := 1, cwait := True, change := - 1\<rparr>, Some Writers) \<and>
   writer_exit_protocol (sync_new\<lparr>wcount := 1, cwait := True\<rparr>) =
     (sync_new\<lparr>wcount := 0, cwait := True\<rparr>, Some Clear)"
  using writer_exit_baton [of "sync_new\<lparr>wcount := 1, rwait := 2, wwait := 1, cwait := True\<rparr>"]
    writer_exit_baton [of "sync_new\<lparr>wcount := 1, wwait := 1, cwait := True\<rparr>"]
    writer_exit_baton [of "sync_new\<lparr>wcount := 1, cwait := True\<rparr>"]
  by (simp add: sync_new_def prod_eq_iff sync.equality)




text \<open>
  Claim C6, as stated, fails for the source \<open>/\<close>, which is an ancestor of every other
  path: \<open>tree_move\<close> returns \<open>EBUSY\<close> for it, the check for the root coming first.
\<close>

theorem move_root_into_descendant_counterexample:
  "is_path_valid 255 ''/'' \<and> is_path_valid 255 ''/a/'' \<and>
   strict_prefix (path_components ''/'') (path_components ''/a/'') \<and>
   tree_move 255 (tree_new, []) ''/'' ''/a/'' = Some ((tree_new, []), EBUSY) \<and> EBUSY \<noteq> - 1"
proof -
  have v: "is_path_valid 255 ''/a/''"
    by (simp add: is_path_valid_def path_components_def is_name_def permitted_def)
  have p: "strict_prefix (path_components ''/'') (path_components ''/a/'')"
    by (simp add: path_components_def)
  from v p show ?thesis by (simp add: tree_move_def is_root_def)
qed

text \<open>
  Claim C6, amended. For valid paths \<open>s\<close> and \<open>t\<close> with \<open>s\<close> other than \<open>/\<close> and the
  components of \<open>s\<close> a strict prefix of those of \<open>t\<close>, \<open>tree_move\<close> returns -1 and
  leaves the tree, in whatever state it is, unchanged.
\<close>

theorem move_into_descendant:
  assumes "is_path_valid mx s" and "is_path_valid mx t" and "s \<noteq> ''/''"
    and "strict_prefix (path_components s) (path_components t)"
  shows "tree_move mx st s t = Some (st, - 1)"
  using assms by (rule tree_move_ancestor)

theorem move_into_descendant_witness:
  "is_path_valid 255 ''/a/'' \<and> is_path_valid 255 ''/a/b/'' \<and> ''/a/'' \<noteq> ''/'' \<and>
   strict_prefix (path_components ''/a/'') (path_components ''/a/b/'') \<and>
   tree_move 255 (tree_new, []) ''/a/'' ''/a/b/'' = Some ((tree_new, []), - 1)"
proof -
  have v: "is_path_valid 255 ''/a/''" "is_path_valid 255 ''/a/b/''"
    by (simp_all add: is_path_valid_def path_components_def is_name_def permitted_def)
  have p: "strict_prefix (path_components ''/a/'') (path_components ''/a/b/'')"
    by (simp add: path_components_def)
  from move_into_descendant [OF v _ p, of "(tree_new, [])"] v p show ?thesis by simp
qed

text \<open>
  Claim C7, as stated, fails where its cases overlap: \<open>tree_move\<close> of \<open>/\<close> to \<open>/\<close>
  returns \<open>EBUSY\<close>, not \<open>EEXIST\<close>, and \<open>tree_move\<close> of \<open>/\<close> to an invalid path returns
  \<open>EINVAL\<close>, not \<open>EBUSY\<close>.
\<close>

theorem root_codes_counterexample:
  "tree_move 255 (tree_new, []) ''/'' ''/'' = Some ((tree_new, []), EBUSY) \<and> EBUSY \<noteq> EEXIST \<and>
   tree_move 255 (tree_new, []) ''/'' ''/a'' = Some ((tree_new, []), EINVAL) \<and> EINVAL \<noteq> EBUSY"
proof -
  have i: "\<not> is_path_valid 255 ''/a''"
    by (simp add: is_path_valid_def path_components_def)
  then show ?thesis by (simp add: tree_move_def is_root_def)
qed

text \<open>
  Claim C7, amended. For every tree: \<open>tree_create\<close> of \<open>/\<close> returns \<open>EEXIST\<close>;
  \<open>tree_remove\<close> of \<open>/\<close> returns \<open>EBUSY\<close>; \<open>tree_move\<close> with source \<open>/\<close> and a valid
  target returns \<open>EBUSY\<close>; \<open>tree_move\<close> with target \<open>/\<close> and a valid source other than
  \<open>/\<close> returns \<open>EEXIST\<close>; with an invalid path, \<open>tree_create\<close> and \<open>tree_remove\<close> return
  \<open>EINVAL\<close>, so does \<open>tree_move\<close> whatever its other argument is, and \<open>tree_list\<close>
  returns none. The tree is unchanged in every case.
\<close>

theorem root_and_invalid_codes:
  "tree_create mx st ''/'' = Some (st, EEXIST) \<and>
   tree_remove mx st ''/'' = Some (st, EBUSY) \<and>
   (is_path_valid mx target \<longrightarrow> tree_move mx st ''/'' target = Some (st, EBUSY)) \<and>
   (is_path_valid mx source \<and> source \<noteq> ''/'' \<longrightarrow>
      tree_move mx st source ''/'' = Some (st, EEXIST)) \<and>
   (\<not> is_path_valid mx p \<longrightarrow>
      tree_create mx st p = Some (st, EINVAL) \<and>
      tree_remove mx st p = Some (st, EINVAL) \<and>
      tree_move mx st p q = Some (st, EINVAL) \<and>
      tree_move mx st q p = Some (st, EINVAL) \<and>
      tree_list mx st p = Some (st, None))"
  by (simp add: tree_create_def tree_remove_def tree_move_def tree_list_def is_root_def)

theorem root_and_invalid_codes_witness:
  "is_path_valid 255 ''/a/'' \<and> ''/a/'' \<noteq> ''/'' \<and> \<not> is_path_valid 255 ''/a'' \<and>
   tree_move 255 (tree_new, []) ''/'' ''/a/'' = Some ((tree_new, []), EBUSY) \<and>
   tree_move 255 (tree_new, []) ''/a/'' ''/'' = Some ((tree_new, []), EEXIST) \<and>
   tree_create 255 (tree_new, []) ''/a'' = Some ((tree_new, []), EINVAL) \<and>
   tree_list 255 (tree_new, []) ''/a'' = Some ((tree_new, []), None)"
proof -
  have v: "is_path_valid 255 ''/a/''"
    by (simp add: is_path_valid_def path_components_def is_name_def permitted_def)
  have i: "\<not> is_path_valid 255 ''/a''"
    by (simp add: is_path_valid_def path_components_def)
  from v i root_and_invalid_codes [of 255 "(tree_new, [])" "''/a/''" "''/a/''" "''/a''" "''/''"]
  show ?thesis by simp
qed

text \<open>
  Claim C4. In a sequential execution, that is in a tree that no thread is using and
  whose keys are folder names, for every valid path \<open>p\<close> other than \<open>/\<close> with parent path
  \<open>parent\<close> and last component \<open>child\<close>: when \<open>tree_create\<close> of \<open>p\<close> returns 0,
  \<open>tree_list\<close> of \<open>parent\<close> in the resulting tree returns a listing that shows
  \<open>child\<close>; when \<open>tree_remove\<close> of \<open>p\<close> returns 0, it returns a listing that does not.
\<close>

theorem create_remove_listed:
  assumes "idle t" and "named mx t" and "is_path_valid mx p" and "p \<noteq> ''/''"
    and "make_path_to_parent p = Some (parent, child)"
  shows "(tree_create mx (t, lg) p = Some ((t', lg'), 0) \<longrightarrow>
            (\<exists>lg'' out. tree_list mx (t', lg') parent = Some ((t', lg''), Some out) \<and>
                child \<in> set (listed out))) \<and>
         (tree_remove mx (t, lg) p = Some ((t', lg'), 0) \<longrightarrow>
            (\<exists>lg'' out. tree_list mx (t', lg') parent = Some ((t', lg''), Some out) \<and>
                child \<notin> set (listed out)))"
proof -
  from assms(3,4) obtain ns n where p: "p = render (ns @ [n])"
    and l: "list_all (is_name mx) (ns @ [n])"
    and mp: "make_path_to_parent p = Some (render ns, n)"
    by (rule valid_nonroot_parts)
  from mp assms(5) have par: "parent = render ns" and chi: "child = n" by simp_all
  from l have ln: "list_all (is_name mx) ns" and nn: "is_name mx n" by simp_all
  show ?thesis
  proof (intro conjI impI)
    assume "tree_create mx (t, lg) p = Some ((t', lg'), 0)"
    from tree_create_success [OF assms(1) l this [unfolded p]]
    have e: "get_node t ns \<noteq> None" and t': "t' = upd_node (map_tmap (\<lambda>m. hmap_insert m n tree_new)) ns t"
      by simp_all
    from e obtain pn where pn: "get_node t ns = Some pn" by auto
    have i: "idle t'" unfolding t' by (rule idle_upd_node [OF assms(1)]) (simp add: idle_insert)
    have g: "get_node t' ns = Some (map_tmap (\<lambda>m. hmap_insert m n tree_new) pn)"
      unfolding t' by (simp add: get_upd_same pn)
    from tree_list_found [OF i ln g, of lg'] obtain lg'' where
      "tree_list mx (t', lg') (render ns) = Some ((t', lg''),
         Some (make_map_contents_string (hmap_insert (tmap pn) n tree_new)))" by auto
    moreover have "n \<in> set (listed (make_map_contents_string (hmap_insert (tmap pn) n tree_new)))"
      unfolding make_map_contents_string_def
      by (rule listed_join_member)
        (simp_all add: hmap_insert_def dom_update is_name_nonempty [OF nn] is_name_commafree [OF nn])
    ultimately show "\<exists>lg'' out. tree_list mx (t', lg') parent = Some ((t', lg''), Some out) \<and>
        child \<in> set (listed out)" unfolding par chi by blast
  next
    assume "tree_remove mx (t, lg) p = Some ((t', lg'), 0)"
    from tree_remove_success [OF assms(1) l this [unfolded p]]
    have e: "get_node t ns \<noteq> None" and t': "t' = upd_node (map_tmap (\<lambda>m. hmap_remove m n)) ns t"
      by simp_all
    from e obtain pn where pn: "get_node t ns = Some pn" by auto
    have i: "idle t'" unfolding t' by (rule idle_upd_node [OF assms(1)]) (simp add: idle_remove)
    have g: "get_node t' ns = Some (map_tmap (\<lambda>m. hmap_remove m n) pn)"
      unfolding t' by (simp add: get_upd_same pn)
    from tree_list_found [OF i ln g, of lg'] obtain lg'' where
      "tree_list mx (t', lg') (render ns) = Some ((t', lg''),
         Some (make_map_contents_string (hmap_remove (tmap pn) n)))" by auto
    moreover have "n \<notin> set (listed (make_map_contents_string (hmap_remove (tmap pn) n)))"
    proof -
      from named_get [OF assms(2) pn] have "\<forall>k \<in> fst ` set (tmap pn). is_name mx k"
        by (auto dest: named_keys)
      then have "list_all (\<lambda>k. k \<noteq> [] \<and> CHR '','' \<notin> set k)
          (remdups (map fst (AList.delete n (tmap pn))))"
        by (auto simp: list_all_iff delete_keys dest: is_name_nonempty is_name_commafree)
      from listed_join [OF this] show ?thesis
        by (simp add: make_map_contents_string_def hmap_remove_def delete_keys)
    qed
    ultimately show "\<exists>lg'' out. tree_list mx (t', lg') parent = Some ((t', lg''), Some out) \<and>
        child \<notin> set (listed out)" unfolding par chi by blast
  qed
qed

theorem create_remove_listed_witness:
  "idle tree_new \<and> named 255 tree_new \<and> is_path_valid 255 ''/a/'' \<and> ''/a/'' \<noteq> ''/'' \<and>
   make_path_to_parent ''/a/'' = Some (''/'', ''a'') \<and>
   tree_create 255 (tree_new, []) ''/a/'' =
     Some ((Tree [(''a'', tree_new)] sync_new, [Writer_entry [], Writer_exit []]), 0) \<and>
   (\<exists>lg'' out. tree_list 255 (Tree [(''a'', tree_new)] sync_new, [Writer_entry [], Writer_exit []]) ''/'' =
       Some ((Tree [(''a'', tree_new)] sync_new, lg''), Some out) \<and> ''a'' \<in> set (listed out)) \<and>
   idle (Tree [(''a'', tree_new)] sync_new) \<and> named 255 (Tree [(''a'', tree_new)] sync_new) \<and>
   tree_remove 255 (Tree [(''a'', tree_new)] sync_new, []) ''/a/'' =
     Some ((tree_new, [Writer_entry [], Writer_exit []]), 0) \<and>
   (\<exists>lg'' out. tree_list 255 (tree_new, [Writer_entry [], Writer_exit []]) ''/'' =
       Some ((tree_new, lg''), Some out) \<and> ''a'' \<notin> set (listed out))"
proof -
  have i: "idle tree_new" "idle (Tree [(''a'', tree_new)] sync_new)"
    by (simp_all add: tree_new_def)
  have n: "named 255 tree_new" "named 255 (Tree [(''a'', tree_new)] sync_new)"
    by (simp_all add: tree_new_def is_name_def permitted_def)
  have m: "make_path_to_parent ''/a/'' = Some (''/'', ''a'')"
    by (simp add: make_path_to_parent_def)
  have ne: "''/a/'' \<noteq> ''/''" by simp
  from create_remove_listed [OF i(1) n(1) valid_examples(1) ne m, of "[]"
      "Tree [(''a'', tree_new)] sync_new" "[Writer_entry [], Writer_exit []]"]
    create_remove_listed [OF i(2) n(2) valid_examples(1) ne m, of "[]"
      tree_new "[Writer_entry [], Writer_exit []]"]
    tree_create_a tree_remove_a i n m
  show ?thesis by simp
qed

text \<open>
  Claim C9. In a tree that no thread is using, for every valid path \<open>p\<close> other than
  \<open>/\<close> that is not present and can be a leaf, its parent being present: \<open>tree_create\<close>
  of \<open>p\<close> returns 0, \<open>tree_remove\<close> of \<open>p\<close> in the resulting tree returns 0, and the
  tree after both calls is the tree before them.
\<close>

theorem create_then_remove:
  assumes "idle t" and "is_path_valid mx p" and "p \<noteq> ''/''"
    and "get_node t (butlast (path_components p)) \<noteq> None"
    and "get_node t (path_components p) = None"
  shows "\<exists>t1 lg1 lg2. tree_create mx (t, lg) p = Some ((t1, lg1), 0) \<and>
     tree_remove mx (t1, lg1) p = Some ((t, lg2), 0)"
proof -
  from assms(2,3) obtain ns n where p: "p = render (ns @ [n])"
    and l: "list_all (is_name mx) (ns @ [n])" and pc: "path_components p = ns @ [n]"
    by (rule valid_nonroot_parts)
  from assms(4,5) pc have e: "get_node t ns \<noteq> None" and a: "get_node t (ns @ [n]) = None"
    by simp_all
  from e obtain pn where pn: "get_node t ns = Some pn" by auto
  let ?t1 = "upd_node (map_tmap (\<lambda>m. hmap_insert m n tree_new)) ns t"
  from tree_create_new [OF assms(1) l e a, of lg] obtain lg1 where
    c: "tree_create mx (t, lg) p = Some ((?t1, lg1), 0)" unfolding p by blast
  have i: "idle ?t1" by (rule idle_upd_node [OF assms(1)]) (simp add: idle_insert)
  have g: "get_node ?t1 (ns @ [n]) = Some tree_new"
    by (simp add: get_node_append get_upd_same pn hmap_insert_def update_conv')
  have "tmap tree_new = []" by (simp add: tree_new_def)
  from tree_remove_empty [OF i l g this, of lg1] obtain lg2 where
    r: "tree_remove mx (?t1, lg1) p =
      Some ((upd_node (map_tmap (\<lambda>m. hmap_remove m n)) ns ?t1, lg2), 0)" unfolding p by blast
  from a pn have "map_of (tmap pn) n = None"
    by (simp add: get_node_append split: option.splits)
  then have "n \<notin> fst ` set (tmap pn)" by (simp add: map_of_eq_None_iff)
  then have "map_tmap (\<lambda>m. hmap_remove m n) (map_tmap (\<lambda>m. hmap_insert m n tree_new) pn) = pn"
    by (cases pn) (simp add: map_tmap_def hmap_remove_def hmap_insert_def delete_update_same)
  then have "upd_node (map_tmap (\<lambda>m. hmap_remove m n)) ns ?t1 = t"
    unfolding upd_upd_same by (rule upd_node_id [OF pn])
  with c r show ?thesis by auto
qed

theorem create_then_remove_witness:
  "idle tree_new \<and> is_path_valid 255 ''/a/'' \<and> ''/a/'' \<noteq> ''/'' \<and>
   get_node tree_new (butlast (path_components ''/a/'')) \<noteq> None \<and>
   get_node tree_new (path_components ''/a/'') = None \<and>
   (\<exists>t1 lg1 lg2. tree_create 255 (tree_new, []) ''/a/'' = Some ((t1, lg1), 0) \<and>
     tree_remove 255 (t1, lg1) ''/a/'' = Some ((tree_new, lg2), 0))"
proof -
  have g: "get_node tree_new (butlast (path_components ''/a/'')) \<noteq> None"
    "get_node tree_new (path_components ''/a/'') = None"
    by (simp_all add: path_components_def tree_new_def)
  from create_then_remove [OF idle_tree_new valid_examples(1) _ g, of "[]"] g
  show ?thesis by simp
qed

text \<open>
  Claim C3. Whenever \<open>tree_move\<close> of \<open>s\<close> to \<open>t\<close> returns \<open>0\<close>, wherever other threads
  are inside nodes or waiting at them: the subtree that was at \<open>s\<close> before the call is at \<open>t\<close>
  afterwards, the same node with its contents unchanged, and nothing is at \<open>s\<close> any
  more; the maps of the tree after the call are those of the tree before it with the
  last component of \<open>s\<close> removed from the map of the parent of \<open>s\<close> and that node inserted
  into the map of the parent of \<open>t\<close> under the last component of \<open>t\<close>. When no other
  thread is in the tree, the counters of every node are as before too.
\<close>

theorem move_relocates_subtree:
  assumes "tree_move mx (t, lg) s tg = Some ((t', lg'), 0)"
  shows "\<exists>sub. get_node t (path_components s) = Some sub \<and>
     get_node t' (path_components tg) = Some sub \<and>
     get_node t' (path_components s) = None \<and>
     contents t' =
       contents (upd_node (map_tmap (\<lambda>m. hmap_insert m (last (path_components tg)) sub))
            (butlast (path_components tg))
            (upd_node (map_tmap (\<lambda>m. hmap_remove m (last (path_components s))))
               (butlast (path_components s)) t)) \<and>
     (idle t \<longrightarrow>
        t' = upd_node (map_tmap (\<lambda>m. hmap_insert m (last (path_components tg)) sub))
            (butlast (path_components tg))
            (upd_node (map_tmap (\<lambda>m. hmap_remove m (last (path_components s))))
               (butlast (path_components s)) t))"
proof -
  from assms obtain S sn T tn where pS: "path_components s = S @ [sn]"
    and pT: "path_components tg = T @ [tn]"
    and s: "s = render (S @ [sn])" and tg: "tg = render (T @ [tn])"
    and nS: "list_all (is_name mx) (S @ [sn])" and nT: "list_all (is_name mx) (T @ [tn])"
    and ns: "\<not> strict_prefix (S @ [sn]) (T @ [tn])"
    by (rule tree_move_returns_zero)
  note run = tree_move_run [OF nS nT ns assms [unfolded s tg]]
  from run(1) have z: "snd (move_outcome t S sn T tn) = 0" by simp
  then obtain sub where sub: "get_node t (S @ [sn]) = Some sub"
    and o: "move_outcome t S sn T tn =
      (upd_node (map_tmap (\<lambda>m. hmap_insert m tn sub)) T
         (upd_node (map_tmap (\<lambda>m. hmap_remove m sn)) S t), 0)"
    by (auto simp: move_outcome_def split: if_splits option.splits)
  have i: "t' = upd_node (map_tmap (\<lambda>m. hmap_insert m tn sub)) T
         (upd_node (map_tmap (\<lambda>m. hmap_remove m sn)) S t)" if "idle t"
    using tree_move_result [OF that nS nT ns, of lg] assms unfolding s tg o by simp
  from run(2,3) sub o i show ?thesis unfolding pS pT by simp
qed

theorem move_relocates_subtree_witness:
  "tree_move 255 (tree_a_b_z, []) ''/a/b/'' ''/c/'' =
     Some ((Tree [(''a'', Tree [] sync_new), (''z'', Tree [] sR), (''c'', tree_new)] sync_new,
            [Writer_entry [], Writer_entry [''a''], Writer_exit [''a''], Writer_exit []]), 0) \<and>
   \<not> idle tree_a_b_z \<and>
   get_node tree_a_b_z (path_components ''/a/b/'') = Some tree_new \<and>
   get_node (Tree [(''a'', Tree [] sync_new), (''z'', Tree [] sR), (''c'', tree_new)] sync_new)
     (path_components ''/c/'') = Some tree_new \<and>
   get_node (Tree [(''a'', Tree [] sync_new), (''z'', Tree [] sR), (''c'', tree_new)] sync_new)
     (path_components ''/a/b/'') = None \<and>
   tree_move 255 (tree_a_b, []) ''/a/b/'' ''/c/'' =
     Some ((Tree [(''a'', Tree [] sync_new), (''c'', tree_new)] sync_new,
            [Writer_entry [], Writer_entry [''a''], Writer_exit [''a''], Writer_exit []]), 0) \<and>
   idle tree_a_b \<and>
   get_node tree_a_b (path_components ''/a/b/'') = Some tree_new \<and>
   get_node (Tree [(''a'', Tree [] sync_new), (''c'', tree_new)] sync_new)
     (path_components ''/c/'') = Some tree_new \<and>
   get_node (Tree [(''a'', Tree [] sync_new), (''c'', tree_new)] sync_new)
     (path_components ''/a/b/'') = None"
proof -
  have g: "get_node tree_a_b_z (path_components ''/a/b/'') = Some tree_new"
    "get_node tree_a_b (path_components ''/a/b/'') = Some tree_new"
    by (simp_all add: path_components_def tree_a_b_z_def tree_a_b_def)
  from move_relocates_subtree [OF tree_move_a_b_z] move_relocates_subtree [OF tree_move_a_b]
    tree_move_a_b_z tree_move_a_b g
  show ?thesis by auto
qed




text \<open>
  Claim C8, as stated, fails for the per-branch descents of \<open>tree_move\<close>: when the
  component missing is the first one below the lowest common ancestor of the two parent
  paths, the node held when the missing child is detected is that ancestor, which is held
  as a writer; \<open>move_dfs\<close> releases nothing and \<open>target_dfs\<close> releases the ancestor with
  the writer exit protocol. Moving \<open>/a/b/\<close> to \<open>/c/d/\<close> in a tree without \<open>/c/\<close> makes two
  calls, the writer entry and the writer exit of the root, and no reader exit.
\<close>

theorem missing_at_lca_counterexample:
  "get_node tree_a_b [] \<noteq> None \<and> get_node tree_a_b [''c''] = None \<and>
   tree_move 255 (tree_a_b, []) ''/a/b/'' ''/c/d/'' =
     Some ((tree_a_b, [Writer_entry [], Writer_exit []]), ENOENT)"
proof -
  have "tree_move 255 (tree_a_b, []) ''/a/b/'' ''/c/d/'' =
     Some ((tree_a_b, [Writer_entry [], Writer_exit []]), ENOENT)"
    by code_simp
  then show ?thesis by (simp add: tree_a_b_def)
qed

text \<open>
  Claim C8, amended. Let the folder \<open>pre\<close> exist and have no child \<open>c\<close>, wherever other
  threads are inside nodes or waiting at them, and let \<open>c\<close> be the missing component of
  one of these descents: \<open>find_node\<close> called with the step budget equal to the number
  of components of its path, the descent of the shared prefix in \<open>tree_move\<close>, a
  per-branch descent \<open>move_dfs\<close> of \<open>tree_move\<close>. In each of them, when the missing child is
  detected \<open>ENOENT\<close> is signalled and no map has been changed. In \<open>find_node\<close>, in the
  descent of the shared prefix, and in a per-branch descent that starts at a proper
  ancestor \<open>l\<close> of \<open>pre\<close> (in the target branch and in the source branch alike), every call
  made before the missing child is detected is a call of a reader protocol, and the last
  call is the reader exit of \<open>pre\<close>, the node held at that moment. In a per-branch descent
  that starts at \<open>pre\<close> itself, which is then the lowest common ancestor and is held as a
  writer, \<open>move_dfs\<close> makes no call; its caller releases \<open>pre\<close> with the writer exit
  protocol: \<open>target_dfs\<close> does so, and \<open>source_dfs\<close> after it has released the target parent,
  if that is another node, with the writer exit protocol too. \<open>find_node\<close> and
  \<open>tree_move\<close> return when no other thread is in the tree, and \<open>move_dfs\<close> when no
  other thread is at a node of its branch.
\<close>

theorem missing_component_release:
  assumes "list_all slashfree (pre @ c # rest)"
    and "get_node t pre \<noteq> None" and "get_node t (pre @ [c]) = None"
  shows
   "(\<forall>t' lg' r. find_node [] (render (pre @ c # rest)) (length (pre @ c # rest)) (t, lg) =
          Some ((t', lg'), r) \<longrightarrow>
        r = Inl ENOENT \<and> contents t' = contents t \<and>
        (\<exists>ev. \<not> list_ex writer_event ev \<and> lg' = lg @ ev @ [Reader_exit pre])) \<and>
    (idle t \<longrightarrow>
       find_node [] (render (pre @ c # rest)) (length (pre @ c # rest)) (t, lg) \<noteq> None) \<and>
    (list_all (is_name mx) (S @ [sn]) \<and> list_all (is_name mx) (T @ [tn]) \<and>
     \<not> strict_prefix (S @ [sn]) (T @ [tn]) \<and> longest_common_prefix S T = pre @ c # rest \<longrightarrow>
       (\<forall>t' lg' e. tree_move mx (t, lg) (render (S @ [sn])) (render (T @ [tn])) =
            Some ((t', lg'), e) \<longrightarrow>
          e = ENOENT \<and> contents t' = contents t \<and>
          (\<exists>ev. \<not> list_ex writer_event ev \<and> lg' = lg @ ev @ [Reader_exit pre])) \<and>
       (idle t \<longrightarrow> tree_move mx (t, lg) (render (S @ [sn])) (render (T @ [tn])) \<noteq> None)) \<and>
    (pre = l @ b # q \<longrightarrow>
       (\<forall>t' lg' r. move_dfs l (render (b # q @ c # rest)) (length (b # q @ c # rest)) True
              (t, lg) = Some ((t', lg'), r) \<longrightarrow>
          r = Inl ENOENT \<and> contents t' = contents t \<and>
          (\<exists>ev. \<not> list_ex writer_event ev \<and> lg' = lg @ ev @ [Reader_exit pre])) \<and>
       ((\<forall>q'. prefix q' q \<longrightarrow> map_option tsync (get_node t (l @ b # q')) = Some sync_new) \<longrightarrow>
          move_dfs l (render (b # q @ c # rest)) (length (b # q @ c # rest)) True (t, lg) \<noteq>
            None)) \<and>
    move_dfs pre (render (c # rest)) k True (t, lg) = Some ((t, lg), Inl ENOENT) \<and>
    (\<exists>t'. target_dfs pre (render (c # rest)) tn source sn k ks (t, lg) =
       Some ((t', lg @ [Writer_exit pre]), ENOENT)) \<and>
    (get_node t tgt \<noteq> None \<longrightarrow>
       (\<exists>t'. source_dfs pre tgt (render (c # rest)) sn tn k (t, lg) =
          Some ((t', lg @ (if pre \<noteq> tgt then [Writer_exit tgt] else []) @ [Writer_exit pre]),
                ENOENT)))"
proof -
  from assms(1) have sc: "slashfree c" and sp: "list_all slashfree (pre @ [c])" by simp_all
  note e = assms(2) and m = assms(3)
  have a1: "r = Inl ENOENT \<and> contents t' = contents t \<and>
        (\<exists>ev. \<not> list_ex writer_event ev \<and> lg' = lg @ ev @ [Reader_exit pre])"
    if "find_node [] (render (pre @ c # rest)) (length (pre @ c # rest)) (t, lg) =
          Some ((t', lg'), r)" for t' lg' r
    using assms that by (rule find_node_missing_run)
  have a2: "find_node [] (render (pre @ c # rest)) (length (pre @ c # rest)) (t, lg) \<noteq> None"
    if "idle t"
    using find_node_release [OF that sp e m, of rest lg] by auto
  have b1: "e' = ENOENT \<and> contents t' = contents t \<and>
        (\<exists>ev. \<not> list_ex writer_event ev \<and> lg' = lg @ ev @ [Reader_exit pre])"
    if "list_all (is_name mx) (S @ [sn])" "list_all (is_name mx) (T @ [tn])"
      "\<not> strict_prefix (S @ [sn]) (T @ [tn])" "longest_common_prefix S T = pre @ c # rest"
      "tree_move mx (t, lg) (render (S @ [sn])) (render (T @ [tn])) = Some ((t', lg'), e')"
    for t' lg' e'
    using that(1-4) e m that(5) by (rule shared_prefix_missing_run)
  have b2: "tree_move mx (t, lg) (render (S @ [sn])) (render (T @ [tn])) \<noteq> None"
    if "list_all (is_name mx) (S @ [sn])" "list_all (is_name mx) (T @ [tn])"
      "\<not> strict_prefix (S @ [sn]) (T @ [tn])" "longest_common_prefix S T = pre @ c # rest"
      "idle t"
    using shared_prefix_release [OF that(5,1,2,3,4) e m, of lg] by auto
  have c1: "r = Inl ENOENT \<and> contents t' = contents t \<and>
        (\<exists>ev. \<not> list_ex writer_event ev \<and> lg' = lg @ ev @ [Reader_exit pre])"
    if p: "pre = l @ b # q"
      and r: "move_dfs l (render (b # q @ c # rest)) (length (b # q @ c # rest)) True (t, lg) =
        Some ((t', lg'), r)" for t' lg' r
  proof -
    from assms(1) have "list_all slashfree (b # q @ c # rest)" unfolding p by simp
    from branch_missing_run [OF this _ _ r] e m show ?thesis unfolding p by simp
  qed
  have c2: "move_dfs l (render (b # q @ c # rest)) (length (b # q @ c # rest)) True (t, lg) \<noteq>
      None"
    if p: "pre = l @ b # q"
      and f: "\<forall>q'. prefix q' q \<longrightarrow> map_option tsync (get_node t (l @ b # q')) = Some sync_new"
  proof -
    from sp have "list_all slashfree (b # q @ [c])" unfolding p by simp
    from branch_returns [OF this _ _ f] e m show ?thesis unfolding p by simp
  qed
  note d = move_dfs_lca_missing [OF sc e m, of rest k lg]
  note ef = lca_missing_callers [OF sc e m]
  have f1: "\<exists>t'. target_dfs pre (render (c # rest)) tn source sn k ks (t, lg) =
       Some ((t', lg @ [Writer_exit pre]), ENOENT)" by (rule ef(1))
  have f2: "\<exists>t'. source_dfs pre tgt (render (c # rest)) sn tn k (t, lg) =
          Some ((t', lg @ (if pre \<noteq> tgt then [Writer_exit tgt] else []) @ [Writer_exit pre]),
                ENOENT)" if "get_node t tgt \<noteq> None"
    using that by (rule ef(2))
  show ?thesis
    apply (intro conjI allI impI)
    subgoal for t' lg' r using a1 [of t' lg' r] by simp
    subgoal for t' lg' r using a1 [of t' lg' r] by simp
    subgoal for t' lg' r using a1 [of t' lg' r] by simp
    subgoal using a2 by simp
    subgoal for t' lg' e' using b1 [of t' lg' e'] by simp
    subgoal for t' lg' e' using b1 [of t' lg' e'] by simp
    subgoal for t' lg' e' using b1 [of t' lg' e'] by simp
    subgoal using b2 by simp
    subgoal for t' lg' r using c1 [of t' lg' r] by simp
    subgoal for t' lg' r using c1 [of t' lg' r] by simp
    subgoal for t' lg' r using c1 [of t' lg' r] by simp
    subgoal using c2 by simp
    subgoal by (rule d)
    subgoal by (rule f1)
    subgoal by (rule f2)
    done
qed

theorem missing_component_release_witness:
  "list_all slashfree ([''a''] @ ''c'' # []) \<and>
   get_node tree_a_b [''a''] \<noteq> None \<and> get_node tree_a_b ([''a''] @ [''c'']) = None \<and>
   idle tree_a_b \<and>
   find_node [] (render ([''a''] @ ''c'' # [])) (length ([''a''] @ ''c'' # [])) (tree_a_b, []) =
     Some ((tree_a_b, [Reader_entry [], Reader_entry [''a''], Reader_exit [], Reader_exit [''a'']]),
           Inl ENOENT) \<and>
   list_all (is_name 255) ([''a'', ''c''] @ [''x'']) \<and>
   list_all (is_name 255) ([''a'', ''c''] @ [''y'']) \<and>
   \<not> strict_prefix ([''a'', ''c''] @ [''x'']) ([''a'', ''c''] @ [''y'']) \<and>
   longest_common_prefix [''a'', ''c''] [''a'', ''c''] = [''a''] @ ''c'' # [] \<and>
   tree_move 255 (tree_a_b, []) (render ([''a'', ''c''] @ [''x'']))
       (render ([''a'', ''c''] @ [''y''])) =
     Some ((tree_a_b, [Reader_entry [], Reader_entry [''a''], Reader_exit [], Reader_exit [''a'']]),
           ENOENT) \<and>
   (\<exists>ev. \<not> list_ex writer_event ev \<and>
      [Reader_entry [], Reader_entry [''a''], Reader_exit [], Reader_exit [''a'']] =
        [] @ ev @ [Reader_exit [''a'']]) \<and>
   get_node tree_a_b_held [''a''] \<noteq> None \<and> get_node tree_a_b_held ([''a''] @ [''c'']) = None \<and>
   [''a''] = [] @ ''a'' # [] \<and>
   move_dfs [] (render (''a'' # [] @ ''c'' # [])) (length (''a'' # [] @ ''c'' # [])) True
       (tree_a_b_held, []) =
     Some ((tree_a_b_held, [Reader_entry [''a''], Reader_exit [''a'']]), Inl ENOENT) \<and>
   (\<exists>ev. \<not> list_ex writer_event ev \<and>
      [Reader_entry [''a''], Reader_exit [''a'']] = [] @ ev @ [Reader_exit [''a'']]) \<and>
   list_all slashfree ([] @ ''c'' # []) \<and>
   get_node (set_sync sW [''a''] tree_a_b_held) [] \<noteq> None \<and>
   get_node (set_sync sW [''a''] tree_a_b_held) ([] @ [''c'']) = None \<and>
   get_node (set_sync sW [''a''] tree_a_b_held) [''a''] \<noteq> None \<and>
   move_dfs [] (render (''c'' # [])) 1 True (set_sync sW [''a''] tree_a_b_held, []) =
     Some ((set_sync sW [''a''] tree_a_b_held, []), Inl ENOENT) \<and>
   (\<exists>t'. target_dfs [] (render (''c'' # [])) ''y'' ''/'' ''x'' 1 0
          (set_sync sW [''a''] tree_a_b_held, []) =
      Some ((t', [] @ [Writer_exit []]), ENOENT)) \<and>
   (\<exists>t'. source_dfs [] [''a''] (render (''c'' # [])) ''x'' ''y'' 1
          (set_sync sW [''a''] tree_a_b_held, []) =
      Some ((t', [] @ [Writer_exit [''a'']] @ [Writer_exit []]), ENOENT))"
proof -
  have h1: "list_all slashfree ([''a''] @ ''c'' # [])"
    "get_node tree_a_b [''a''] \<noteq> None" "get_node tree_a_b ([''a''] @ [''c'']) = None"
    by (simp_all add: slashfree_def tree_a_b_def)
  have n: "list_all (is_name 255) ([''a'', ''c''] @ [''x''])"
    "list_all (is_name 255) ([''a'', ''c''] @ [''y''])"
    by (simp_all add: is_name_def permitted_def)
  have p: "\<not> strict_prefix ([''a'', ''c''] @ [''x'']) ([''a'', ''c''] @ [''y''])"
    "longest_common_prefix [''a'', ''c''] [''a'', ''c''] = [''a''] @ ''c'' # []"
    "[''a''] = [] @ ''a'' # []"
    by simp_all
  have h2: "get_node tree_a_b_held [''a''] \<noteq> None"
    "get_node tree_a_b_held ([''a''] @ [''c'']) = None"
    by (simp_all add: tree_a_b_held_def)
  have h3: "list_all slashfree ([] @ ''c'' # [])"
    "get_node (set_sync sW [''a''] tree_a_b_held) [] \<noteq> None"
    "get_node (set_sync sW [''a''] tree_a_b_held) ([] @ [''c'']) = None"
    "get_node (set_sync sW [''a''] tree_a_b_held) [''a''] \<noteq> None"
    by (simp_all add: slashfree_def tree_a_b_held_def set_sync_def map_tsync_def)
  note i1 = missing_component_release [OF h1, where lg = "[]" and mx = 255
      and S = "[''a'', ''c'']" and sn = "''x''" and T = "[''a'', ''c'']" and tn = "''y''"]
  note i2 = missing_component_release [OF h1(1) h2(1,2), where lg = "[]"
      and l = "[]" and b = "''a''" and q = "[]"]
  note i3 = missing_component_release [OF h3(1,2,3), where lg = "[]"
      and k = 1 and tn = "''y''" and source = "''/''" and sn = "''x''" and ks = 0
      and tgt = "[''a'']"]
  note a1 = i1 [THEN conjunct1, rule_format, OF missing_runs(1)]
  note c1 = a1 [THEN conjunct2, THEN conjunct2]
  note b2 = i2 [THEN conjunct2, THEN conjunct2, THEN conjunct2, THEN conjunct1, THEN mp, OF p(3)]
  note a2 = b2 [THEN conjunct1, rule_format, OF missing_runs(3)]
  note c2 = a2 [THEN conjunct2, THEN conjunct2]
  note r3 = i3 [THEN conjunct2, THEN conjunct2, THEN conjunct2, THEN conjunct2]
  note c3 = r3 [THEN conjunct1] r3 [THEN conjunct2, THEN conjunct1]
  have c4: "\<exists>t'. source_dfs [] [''a''] (render (''c'' # [])) ''x'' ''y'' 1
          (set_sync sW [''a''] tree_a_b_held, []) =
      Some ((t', [] @ [Writer_exit [''a'']] @ [Writer_exit []]), ENOENT)"
    using r3 [THEN conjunct2, THEN conjunct2, THEN mp, OF h3(4)] by simp
  show ?thesis
    by (intro conjI h1 h2 h3 n p c1 c2 c3 c4 missing_runs idle_tree_a_b)
qed

end
